theory Spec2Isabelle
  imports Main
begin

section \<open>Operation envelopes (routerlicious, core/messages.ts)\<close>

text \<open>
  The three type tags are string constants of the module. The message shapes are
  TypeScript interfaces; each becomes a record, and \<open>extends\<close> becomes record
  extension. The types of \<open>user\<close> (\<open>IAuthenticatedUser\<close>) and of the raw operation
  (\<open>api.IDocumentMessage\<close>) are declared in modules outside these sources and stay
  type parameters. \<open>timestamp\<close> is a count of milliseconds.
\<close>

definition RawOperationType :: string where
  "RawOperationType = ''RawOperation''"

definition SequencedOperationType :: string where
  "SequencedOperationType = ''SequencedOperation''"

definition SystemType :: string where
  "SystemType = ''System''"

record IMessage =
  type :: string

record 'u IObjectMessage = IMessage +
  user :: 'u
  documentId :: string
  clientId :: string
  timestamp :: int

record ('u, 'op) IRawOperationMessage = "'u IObjectMessage" +
  operation :: 'op

record ITicketedMessage = IMessage +
  documentId :: string

text \<open>
  Modelled from the spec: \<open>api.ISequencedDocumentMessage\<close>, the operation a sequenced
  message carries, is declared in \<open>api-core\<close>, which is not among the sources. The spec
  (section 6) says of it only that the sequenced form is stamped by the authority and
  carries the final \<open>sequenceNumber\<close>; the record keeps that field and leaves the rest
  of the operation as a parameter.
\<close>

record 'c ISequencedDocumentMessage =
  sequenceNumber :: nat
  contents :: 'c

record 'c ISequencedOperationMessage = ITicketedMessage +
  operation :: "'c ISequencedDocumentMessage"

record IForkOperation =
  minSequenceNumber :: nat
  name :: string
  sequenceNumber :: nat

section \<open>Telemetry type guard (common-definitions, logger.ts)\<close>

text \<open>
  The guard takes \<open>any\<close>, so the model needs the JavaScript values it can be given.
  An object or a function is the list of its properties as a read finds them, its own
  or those of its prototypes. A data property holds a value. A read of an accessor
  property runs its getter, and a read of a proxy runs its \<open>get\<close> trap: code of the
  caller's, which returns a value or throws one. Such a property is given by the
  completion of that code; a proxy is an object (or a function, as its target is)
  whose properties \<open>value\<close> and \<open>tag\<close>, the only two the guard reads, complete as its
  trap does. The payload of a number is irrelevant to \<open>typeof\<close>.
\<close>

datatype ('v, 'a) completion = Normal 'a | Throw 'v

datatype jsvalue =
    JUndefined
  | JNull
  | JBoolean bool
  | JNumber int
  | JBigInt int
  | JString string
  | JSymbol string
  | JFunction "(string \<times> property) list"
  | JObject "(string \<times> property) list"
and property =
    DataProperty jsvalue
  | AccessorProperty "(jsvalue, jsvalue) completion"

fun typeof :: "jsvalue \<Rightarrow> string" where
  "typeof JUndefined = ''undefined''"
| "typeof JNull = ''object''"
| "typeof (JBoolean b) = ''boolean''"
| "typeof (JNumber n) = ''number''"
| "typeof (JBigInt n) = ''bigint''"
| "typeof (JString s) = ''string''"
| "typeof (JSymbol s) = ''symbol''"
| "typeof (JFunction ps) = ''function''"
| "typeof (JObject ps) = ''object''"

text \<open>A read of a property: \<open>undefined\<close> when there is none.\<close>

definition readProperty ::
  "(string \<times> property) list \<Rightarrow> string \<Rightarrow> (jsvalue, jsvalue) completion" where
  "readProperty ps k =
     (case map_of ps k of
        None \<Rightarrow> Normal JUndefined
      | Some (DataProperty v) \<Rightarrow> Normal v
      | Some (AccessorProperty c) \<Rightarrow> c)"

text \<open>
  \<open>x?.k\<close>: \<open>undefined\<close> when \<open>x\<close> is \<open>null\<close> or \<open>undefined\<close>, the read of the property
  otherwise. A primitive is boxed for the read; the wrappers of booleans, numbers,
  strings, symbols and bigints have no property \<open>value\<close> or \<open>tag\<close>.
\<close>

fun optionalChain :: "jsvalue \<Rightarrow> string \<Rightarrow> (jsvalue, jsvalue) completion" where
  "optionalChain (JObject ps) k = readProperty ps k"
| "optionalChain (JFunction ps) k = readProperty ps k"
| "optionalChain x k = Normal JUndefined"

text \<open>
  The guard: \<open>typeof(x?.value) !== "object" && typeof(x?.tag) === "string"\<close>. The
  operands are evaluated from left to right, a read that throws ends the call with
  what it throws, and \<open>&&\<close> does not evaluate its right operand, the read of \<open>tag\<close>, when
  the left one is false.
\<close>

definition isTaggedTelemetryPropertyValue :: "jsvalue \<Rightarrow> (jsvalue, bool) completion" where
  "isTaggedTelemetryPropertyValue x =
     (case optionalChain x ''value'' of
        Throw e \<Rightarrow> Throw e
      | Normal v \<Rightarrow>
          if typeof v = ''object'' then Normal False
          else
            (case optionalChain x ''tag'' of
               Throw e \<Rightarrow> Throw e
             | Normal t \<Rightarrow> Normal (typeof t = ''string'')))"

text \<open>\<open>TelemetryEventPropertyType = string | number | boolean | undefined\<close>.\<close>

definition isTelemetryEventPropertyType :: "jsvalue \<Rightarrow> bool" where
  "isTelemetryEventPropertyType v =
     (typeof v = ''string'' \<or> typeof v = ''number'' \<or> typeof v = ''boolean''
      \<or> typeof v = ''undefined'')"

text \<open>Values all of whose properties are data properties: no read of them runs code.\<close>

fun isDataProperty :: "property \<Rightarrow> bool" where
  "isDataProperty (DataProperty v) = True"
| "isDataProperty (AccessorProperty c) = False"

fun dataProperties :: "jsvalue \<Rightarrow> bool" where
  "dataProperties (JObject ps) = list_all (\<lambda>kp. isDataProperty (snd kp)) ps"
| "dataProperties (JFunction ps) = list_all (\<lambda>kp. isDataProperty (snd kp)) ps"
| "dataProperties x = True"

section \<open>Snapshot store: the repository manager (gitrest, utils.ts)\<close>

text \<open>
  \<open>RepositoryManager\<close> calls three libraries. Each is a parameter of the model:
  \<^item> Node's \<open>path.parse\<close>, a pure function from a name to its parts (the manager reads
    \<open>dir\<close> and \<open>base\<close>);
  \<^item> \<open>fs.exists\<close>, promisified: whether a directory exists when it is asked;
  \<^item> nodegit's \<open>Repository.init\<close> and \<open>Repository.open\<close>, whose promises are fulfilled
    with a repository or rejected with an error of the library.
  The file system and the git library are the world a call runs in; it may differ
  from one call to the next (a directory can be removed between two calls).
\<close>

record ParsedPath =
  root :: string
  dir :: string
  base :: string
  ext :: string
  name :: string

record ('e, 'r) world =
  exists :: "string \<Rightarrow> bool"
  Repository_init :: "string \<Rightarrow> nat \<Rightarrow> 'e + 'r"
  Repository_open :: "string \<Rightarrow> 'e + 'r"

text \<open>
  A promise is modelled by how it settles (\<open>Inl\<close>: rejected with the library's error,
  \<open>Inr\<close>: fulfilled with the repository).

  The cache, \<open>repositoryCache = {}\<close>, is a plain object, and the manager uses it with
  the operators of the language: \<open>base in cache\<close>, \<open>cache[base]\<close> and
  \<open>cache[base] = promise\<close>. All three follow the prototype chain of the object:
  \<^item> the cache has its own properties, the promises stored under base names;
  \<^item> its prototype is \<open>Object.prototype\<close>, whose properties it inherits: \<open>in\<close> is true
    of their names, and reading one yields the built-in function;
  \<^item> \<open>__proto__\<close> is an accessor of \<open>Object.prototype\<close>: reading it yields the
    prototype of the cache, and assigning an object to it makes that object the
    prototype of the cache instead of storing a property. The manager only ever
    assigns promises, so the prototype is \<open>Object.prototype\<close> (\<open>None\<close>) or a promise;
    behind a promise stand \<open>Promise.prototype\<close> and then \<open>Object.prototype\<close>.
  The names are those of ECMAScript 2018 (with its Annex B); no other code is taken to
  have added properties to the two built-in prototypes or frozen them.
\<close>

definition objectPrototypeNames :: "string list" where
  "objectPrototypeNames =
     [''constructor'', ''__defineGetter__'', ''__defineSetter__'', ''hasOwnProperty'',
      ''__lookupGetter__'', ''__lookupSetter__'', ''isPrototypeOf'',
      ''propertyIsEnumerable'', ''toString'', ''valueOf'', ''__proto__'',
      ''toLocaleString'']"

definition promisePrototypeNames :: "string list" where
  "promisePrototypeNames = [''constructor'', ''then'', ''catch'', ''finally'']"

record ('e, 'r) cacheObject =
  ownProperties :: "string \<rightharpoonup> ('e + 'r)"
  prototype :: "('e + 'r) option"

definition emptyObject :: "('e, 'r) cacheObject" where
  "emptyObject = \<lparr>ownProperties = Map.empty, prototype = None\<rparr>"

text \<open>
  What a read of the cache can yield: a promise, the value of a property of one of
  the built-in prototypes (a function), \<open>Object.prototype\<close> itself, or \<open>undefined\<close>.
\<close>

datatype builtin =
  ObjectPrototypeProperty string | PromisePrototypeProperty string | TheObjectPrototype

datatype ('e, 'r) cacheValue = PromiseOf "'e + 'r" | BuiltinValue builtin | Missing

text \<open>\<open>k in c\<close>.\<close>

definition hasProperty :: "('e, 'r) cacheObject \<Rightarrow> string \<Rightarrow> bool" where
  "hasProperty c k =
     (ownProperties c k \<noteq> None
      \<or> (prototype c \<noteq> None \<and> k \<in> set promisePrototypeNames)
      \<or> k \<in> set objectPrototypeNames)"

text \<open>\<open>c[k]\<close>.\<close>

definition getProperty :: "('e, 'r) cacheObject \<Rightarrow> string \<Rightarrow> ('e, 'r) cacheValue" where
  "getProperty c k =
     (case ownProperties c k of
        Some p \<Rightarrow> PromiseOf p
      | None \<Rightarrow>
          if k = ''__proto__'' then
            (case prototype c of None \<Rightarrow> BuiltinValue TheObjectPrototype
                               | Some p \<Rightarrow> PromiseOf p)
          else if prototype c \<noteq> None \<and> k \<in> set promisePrototypeNames
          then BuiltinValue (PromisePrototypeProperty k)
          else if k \<in> set objectPrototypeNames
          then BuiltinValue (ObjectPrototypeProperty k)
          else Missing)"

text \<open>\<open>c[k] = p\<close>, for a promise \<open>p\<close>.\<close>

definition setProperty ::
  "('e, 'r) cacheObject \<Rightarrow> string \<Rightarrow> 'e + 'r \<Rightarrow> ('e, 'r) cacheObject" where
  "setProperty c k p =
     (if k = ''__proto__'' \<and> ownProperties c k = None then c\<lparr>prototype := Some p\<rparr>
      else c\<lparr>ownProperties := (ownProperties c)(k \<mapsto> p)\<rparr>)"

text \<open>
  A call of the manager rejects with one of its own strings
  (\<open>Promise.reject("...")\<close>) or with the library's error, or resolves: with a
  repository, with \<open>undefined\<close> when the async function ends without \<open>return\<close>, or
  with a built-in value when that is what the function returns.
\<close>

datatype 'e rejection = Reason string | GitError 'e

datatype 'r resolved = Undefined | Repository 'r | Builtin builtin

record ('e, 'r) RepositoryManager =
  baseDir :: string
  repositoryCache :: "('e, 'r) cacheObject"

definition newRepositoryManager :: "string \<Rightarrow> ('e, 'r) RepositoryManager" where
  "newRepositoryManager b = \<lparr>baseDir = b, repositoryCache = emptyObject\<rparr>"

text \<open>
  Returning a value from an async function: a promise is adopted; a value that is
  not a promise (none of the built-in values has a \<open>then\<close>) fulfils the call.
\<close>

fun settle :: "('e, 'r) cacheValue \<Rightarrow> 'e rejection + 'r resolved" where
  "settle Missing = Inr Undefined"
| "settle (PromiseOf (Inl e)) = Inl (GitError e)"
| "settle (PromiseOf (Inr r)) = Inr (Repository r)"
| "settle (BuiltinValue b) = Inr (Builtin b)"

text \<open>
  \<open>create\<close>: the name is parsed and refused if it has a directory part. Otherwise
  the repository is initialised (bare: \<open>isBare = 1\<close>); \<open>await\<close> rethrows a rejection
  of the library, before anything is cached. The fulfilled repository is cached as
  \<open>Promise.resolve(repository)\<close>. The function then ends: it has no \<open>return\<close> on this
  path, so its promise resolves with \<open>undefined\<close>.
\<close>

definition create ::
  "(string \<Rightarrow> ParsedPath) \<Rightarrow> ('e, 'r) world \<Rightarrow> string \<Rightarrow> ('e, 'r) RepositoryManager
     \<Rightarrow> ('e rejection + 'r resolved) \<times> ('e, 'r) RepositoryManager" where
  "create parse w nm m =
     (let parsed = parse nm in
      if dir parsed \<noteq> '''' then (Inl (Reason ''Invalid repo name''), m)
      else
        (case Repository_init w (baseDir m @ ''/'' @ base parsed) 1 of
           Inl e \<Rightarrow> (Inl (GitError e), m)
         | Inr repository \<Rightarrow>
             (Inr Undefined,
              m\<lparr>repositoryCache :=
                   setProperty (repositoryCache m) (base parsed) (Inr repository)\<rparr>)))"

text \<open>
  \<open>open\<close> (a keyword of Isabelle, hence the prime): the name is parsed and refused if
  it has a directory part. If the base name is not \<open>in\<close> the cache, the directory
  must exist, and the promise of \<open>Repository.open\<close> is stored as it is, before it
  settles. What the cache then yields for the base name is returned.
\<close>

definition open' ::
  "(string \<Rightarrow> ParsedPath) \<Rightarrow> ('e, 'r) world \<Rightarrow> string \<Rightarrow> ('e, 'r) RepositoryManager
     \<Rightarrow> ('e rejection + 'r resolved) \<times> ('e, 'r) RepositoryManager" where
  "open' parse w nm m =
     (let parsed = parse nm in
      if dir parsed \<noteq> '''' then (Inl (Reason ''Invalid repo name''), m)
      else if \<not> hasProperty (repositoryCache m) (base parsed) then
        (let directory = baseDir m @ ''/'' @ base parsed in
         if \<not> exists w directory then (Inl (Reason ''Repo does not exist''), m)
         else
           (let m' = m\<lparr>repositoryCache :=
                        setProperty (repositoryCache m) (base parsed)
                          (Repository_open w directory)\<rparr>
            in (settle (getProperty (repositoryCache m') (base parsed)), m')))
      else (settle (getProperty (repositoryCache m) (base parsed)), m))"




text \<open>
  For concrete runs: the \<open>dir\<close> and \<open>base\<close> that Node's POSIX \<open>path.parse\<close> computes.
  Trailing slashes are dropped, \<open>base\<close> is the last component, and \<open>dir\<close> is what
  stands before the slash that precedes it (\<open>/\<close> for a component directly under the
  root). The fields \<open>ext\<close> and \<open>name\<close> are not read by the manager and are left empty.
\<close>

definition posix_parse :: "string \<Rightarrow> ParsedPath" where
  "posix_parse p =
     (let isAbsolute = (p \<noteq> [] \<and> hd p = CHR ''/'');
          rt = (if isAbsolute then ''/'' else '''');
          body = rev (dropWhile (\<lambda>c. c = CHR ''/'') (rev (if isAbsolute then tl p else p)));
          b = rev (takeWhile (\<lambda>c. c \<noteq> CHR ''/'') (rev body));
          d = (if length b < length body
               then rt @ take (length body - length b - 1) body else rt)
      in \<lparr>root = rt, dir = d, base = b, ext = '''', name = ''''\<rparr>)"

text \<open>Concrete worlds over error codes and numbered repositories.\<close>

definition healthy :: "(string, nat) world" where
  "healthy = \<lparr>exists = (\<lambda>d. True), Repository_init = (\<lambda>d b. Inr 1),
     Repository_open = (\<lambda>d. Inr 2)\<rparr>"



definition vanished :: "(string, nat) world" where
  "vanished = \<lparr>exists = (\<lambda>d. False), Repository_init = (\<lambda>d b. Inl ''EACCES''),
     Repository_open = (\<lambda>d. Inl ''ENOTFOUND'')\<rparr>"

section \<open>Range index: the interval tree (spec-modelled)\<close>

text \<open>
  Modelled from the spec: the range tree of \<open>collections.ts\<close> (\<open>IntegerRangeTree\<close>,
  with \<open>put\<close> and \<open>match\<close>) is not among the sources; only its test \<open>testRangeTree\<close>
  and the test's data are. The spec (section 4.3) describes it as an augmented balanced
  tree keyed by start, each node storing the maximum end in its subtree, whose descent
  prunes subtrees that cannot overlap the query. The model is a left-leaning red-black
  tree of ranges: keys are ordered by start, then by end; every node stores the
  greatest end of its subtree; \<open>put\<close> leaves a tree that already holds the range as it
  is.
\<close>

record IIntegerRange =
  start :: int
  end' :: int

definition compareRanges :: "IIntegerRange \<Rightarrow> IIntegerRange \<Rightarrow> int" where
  "compareRanges a b = (if start a = start b then end' a - end' b else start a - start b)"

definition rangeOverlaps :: "IIntegerRange \<Rightarrow> IIntegerRange \<Rightarrow> bool" where
  "rangeOverlaps a b = (start a < end' b \<and> start b < end' a)"

datatype RBColor = RED | BLACK

datatype RangeNode =
    Empty
  | RangeNode (color: RBColor) (left: RangeNode) (key: IIntegerRange) (maxEnd: int)
      (right: RangeNode)

fun isRed :: "RangeNode \<Rightarrow> bool" where
  "isRed (RangeNode RED l k m r) = True"
| "isRed t = False"

fun subtreeMax :: "RangeNode \<Rightarrow> int \<Rightarrow> int" where
  "subtreeMax Empty d = d"
| "subtreeMax (RangeNode c l k m r) d = max m d"

text \<open>A node whose stored maximum is recomputed from its key and its children.\<close>

definition makeNode :: "RBColor \<Rightarrow> RangeNode \<Rightarrow> IIntegerRange \<Rightarrow> RangeNode \<Rightarrow> RangeNode" where
  "makeNode c l k r = RangeNode c l k (subtreeMax l (subtreeMax r (end' k))) r"

fun rotateLeft :: "RangeNode \<Rightarrow> RangeNode" where
  "rotateLeft (RangeNode c l k m (RangeNode rc rl rk rm rr)) =
     makeNode c (makeNode RED l k rl) rk rr"
| "rotateLeft t = t"

fun rotateRight :: "RangeNode \<Rightarrow> RangeNode" where
  "rotateRight (RangeNode c (RangeNode lc ll lk lm lr) k m r) =
     makeNode c ll lk (makeNode RED lr k r)"
| "rotateRight t = t"

fun flipColor :: "RBColor \<Rightarrow> RBColor" where
  "flipColor RED = BLACK"
| "flipColor BLACK = RED"

fun flipColors :: "RangeNode \<Rightarrow> RangeNode" where
  "flipColors (RangeNode c (RangeNode lc ll lk lm lr) k m (RangeNode rc rl rk rm rr)) =
     RangeNode (flipColor c) (RangeNode (flipColor lc) ll lk lm lr) k m
       (RangeNode (flipColor rc) rl rk rm rr)"
| "flipColors t = t"

definition fixUp :: "RangeNode \<Rightarrow> RangeNode" where
  "fixUp n =
     (let n1 = (if isRed (right n) \<and> \<not> isRed (left n) then rotateLeft n else n);
          n2 = (if isRed (left n1) \<and> isRed (left (left n1)) then rotateRight n1 else n1)
      in if isRed (left n2) \<and> isRed (right n2) then flipColors n2 else n2)"

fun nodePut :: "IIntegerRange \<Rightarrow> RangeNode \<Rightarrow> RangeNode" where
  "nodePut x Empty = makeNode RED Empty x Empty"
| "nodePut x (RangeNode c l k m r) =
     fixUp (if compareRanges x k < 0 then makeNode c (nodePut x l) k r
            else if compareRanges x k > 0 then makeNode c l k (nodePut x r)
            else RangeNode c l k m r)"

fun blacken :: "RangeNode \<Rightarrow> RangeNode" where
  "blacken Empty = Empty"
| "blacken (RangeNode c l k m r) = RangeNode BLACK l k m r"

definition put :: "IIntegerRange \<Rightarrow> RangeNode \<Rightarrow> RangeNode" where
  "put x t = blacken (nodePut x t)"

text \<open>
  \<open>match\<close>: a subtree whose greatest end does not reach past the start of the query
  holds no overlapping range; the right subtree holds none when the node's own start
  is not before the end of the query.
\<close>

fun match :: "IIntegerRange \<Rightarrow> RangeNode \<Rightarrow> IIntegerRange list" where
  "match q Empty = []"
| "match q (RangeNode c l k m r) =
     (if m \<le> start q then []
      else match q l @ (if rangeOverlaps k q then [k] else [])
           @ (if start k < end' q then match q r else []))"

text \<open>The ranges and the queries of the source's test \<open>testRangeTree\<close>.\<close>

definition docRanges :: "IIntegerRange list" where
  "docRanges =
     [\<lparr>start = 0, end' = 20\<rparr>, \<lparr>start = 8, end' = 12\<rparr>, \<lparr>start = 8, end' = 14\<rparr>,
      \<lparr>start = 20, end' = 24\<rparr>, \<lparr>start = 11, end' = 15\<rparr>, \<lparr>start = 16, end' = 33\<rparr>,
      \<lparr>start = 19, end' = 24\<rparr>, \<lparr>start = 22, end' = 80\<rparr>, \<lparr>start = 25, end' = 29\<rparr>,
      \<lparr>start = 30, end' = 32\<rparr>, \<lparr>start = 41, end' = 49\<rparr>, \<lparr>start = 41, end' = 49\<rparr>,
      \<lparr>start = 41, end' = 49\<rparr>, \<lparr>start = 51, end' = 69\<rparr>, \<lparr>start = 55, end' = 58\<rparr>,
      \<lparr>start = 60, end' = 71\<rparr>, \<lparr>start = 81, end' = 99\<rparr>, \<lparr>start = 85, end' = 105\<rparr>,
      \<lparr>start = 9, end' = 34\<rparr>]"

definition testRanges :: "IIntegerRange list" where
  "testRanges =
     [\<lparr>start = 9, end' = 20\<rparr>, \<lparr>start = 8, end' = 10\<rparr>, \<lparr>start = 82, end' = 110\<rparr>,
      \<lparr>start = 54, end' = 56\<rparr>, \<lparr>start = 57, end' = 57\<rparr>, \<lparr>start = 58, end' = 58\<rparr>,
      \<lparr>start = 22, end' = 48\<rparr>, \<lparr>start = 3, end' = 11\<rparr>, \<lparr>start = 43, end' = 58\<rparr>,
      \<lparr>start = 19, end' = 31\<rparr>]"

definition rangeTreeOf :: "IIntegerRange list \<Rightarrow> RangeNode" where
  "rangeTreeOf rs = fold put rs Empty"

subsection \<open>Invariants of the tree\<close>

fun ranges :: "RangeNode \<Rightarrow> IIntegerRange set" where
  "ranges Empty = {}"
| "ranges (RangeNode c l k m r) = ranges l \<union> {k} \<union> ranges r"

fun keyOrdered :: "RangeNode \<Rightarrow> bool" where
  "keyOrdered Empty = True"
| "keyOrdered (RangeNode c l k m r) =
     (keyOrdered l \<and> keyOrdered r
      \<and> (\<forall>x \<in> ranges l. compareRanges x k < 0) \<and> (\<forall>x \<in> ranges r. compareRanges k x < 0))"

fun maxStored :: "RangeNode \<Rightarrow> bool" where
  "maxStored Empty = True"
| "maxStored (RangeNode c l k m r) =
     (maxStored l \<and> maxStored r \<and> m = subtreeMax l (subtreeMax r (end' k)))"

section \<open>Merge tree: segments seen from a view (spec-modelled)\<close>

text \<open>
  Modelled from the spec: the merge-tree engine (\<open>mergeTree.ts\<close>: \<open>MergeTree\<close>,
  \<open>Client\<close>, \<open>TextSegment\<close>, \<open>Marker\<close>) is not among the sources; its test file is, and
  the test's own functions below (\<open>editFlat\<close>, the three \<open>check...MergeTree\<close>
  functions, \<open>DocumentTree\<close>) are translated from it. The engine follows the spec,
  sections 3 and 4.1:
  \<^item> a segment is a text run or a marker, with the sequence number and client of its
    insertion and, once removed, the sequence number of the removal and the clients
    that removed it;
  \<^item> the tree is given by its segments in document order (the order the spec calls
    independent of the physical shape of the tree);
  \<^item> a position is always relative to a view, a reference sequence number and a
    client: a segment counts with its length when its insertion is visible to the
    view and its removal is not, and with length zero otherwise.
  Sequence numbers are the unassigned placeholder of a local edit or a number assigned
  by the authority; the universal sequence number precedes every view. A bitmask of
  reference types is the set of its flags.
\<close>

datatype seqnum = UnassignedSequenceNumber | Sequenced nat

definition UniversalSequenceNumber :: seqnum where
  "UniversalSequenceNumber = Sequenced 0"

fun sequencedBy :: "seqnum \<Rightarrow> seqnum \<Rightarrow> bool" where
  "sequencedBy (Sequenced n) (Sequenced r) = (n \<le> r)"
| "sequencedBy s r = False"

datatype ReferenceType = Tile | NestBegin | NestEnd | RangeBegin | RangeEnd | SlideOnRemove

record PropertySet =
  markerId :: "string option"
  rangeLabels :: "string list"
  tileLabels :: "string list"

datatype SegmentContent = TextSegment string | Marker "ReferenceType set" PropertySet

record Segment =
  content :: SegmentContent
  seq :: seqnum
  clientId :: int
  removedSeq :: "seqnum option"
  removedClientIds :: "int list"

type_synonym MergeTree = "Segment list"

datatype error = OutOfRange | TypeError

fun contentLength :: "SegmentContent \<Rightarrow> nat" where
  "contentLength (TextSegment t) = length t"
| "contentLength (Marker rt ps) = 1"

fun contentText :: "SegmentContent \<Rightarrow> string" where
  "contentText (TextSegment t) = t"
| "contentText (Marker rt ps) = ''''"

definition insertVisible :: "seqnum \<Rightarrow> int \<Rightarrow> Segment \<Rightarrow> bool" where
  "insertVisible refSeq cid s = (Segment.clientId s = cid \<or> sequencedBy (seq s) refSeq)"

definition removeVisible :: "seqnum \<Rightarrow> int \<Rightarrow> Segment \<Rightarrow> bool" where
  "removeVisible refSeq cid s =
     (case removedSeq s of
        None \<Rightarrow> False
      | Some rs \<Rightarrow> cid \<in> set (removedClientIds s) \<or> sequencedBy rs refSeq)"

definition visible :: "seqnum \<Rightarrow> int \<Rightarrow> Segment \<Rightarrow> bool" where
  "visible refSeq cid s = (insertVisible refSeq cid s \<and> \<not> removeVisible refSeq cid s)"

definition viewLength :: "seqnum \<Rightarrow> int \<Rightarrow> Segment \<Rightarrow> nat" where
  "viewLength refSeq cid s = (if visible refSeq cid s then contentLength (content s) else 0)"

definition viewText :: "seqnum \<Rightarrow> int \<Rightarrow> Segment \<Rightarrow> string" where
  "viewText refSeq cid s = (if visible refSeq cid s then contentText (content s) else '''')"

definition getLength :: "seqnum \<Rightarrow> int \<Rightarrow> MergeTree \<Rightarrow> nat" where
  "getLength refSeq cid mt = sum_list (map (viewLength refSeq cid) mt)"

definition getText :: "seqnum \<Rightarrow> int \<Rightarrow> MergeTree \<Rightarrow> string" where
  "getText refSeq cid mt = concat (map (viewText refSeq cid) mt)"

text \<open>
  The part of a segment between two offsets: splitting a segment leaves parts that
  keep its insertion and removal. Only a text run has an inside; a marker has length
  one and is never cut.
\<close>

fun sliceContent :: "nat \<Rightarrow> nat \<Rightarrow> SegmentContent \<Rightarrow> SegmentContent" where
  "sliceContent a b (TextSegment t) = TextSegment (take (b - a) (drop a t))"
| "sliceContent a b (Marker rt ps) = Marker rt ps"

definition slice :: "nat \<Rightarrow> nat \<Rightarrow> Segment \<Rightarrow> Segment" where
  "slice a b s = s\<lparr>content := sliceContent a b (content s)\<rparr>"

text \<open>
  Insertion (spec 4.1): the position is located in the view, the segment there is
  split if the position falls inside it, and the new segment is put in between. A
  position outside \<open>[0, length]\<close> is an out-of-range error. Segments of length zero
  in the view that stand at the position stay before the new segment.
\<close>

fun insertSegment ::
  "seqnum \<Rightarrow> int \<Rightarrow> nat \<Rightarrow> Segment \<Rightarrow> MergeTree \<Rightarrow> error + MergeTree" where
  "insertSegment refSeq cid pos new [] = (if pos = 0 then Inr [new] else Inl OutOfRange)"
| "insertSegment refSeq cid pos new (s # ss) =
     (let len = viewLength refSeq cid s in
      if pos < len then
        (if pos = 0 then Inr (new # s # ss)
         else Inr (slice 0 pos s # new # slice pos len s # ss))
      else
        (case insertSegment refSeq cid (pos - len) new ss of
           Inl e \<Rightarrow> Inl e
         | Inr ss' \<Rightarrow> Inr (s # ss')))"

definition insertText ::
  "nat \<Rightarrow> seqnum \<Rightarrow> int \<Rightarrow> seqnum \<Rightarrow> string \<Rightarrow> MergeTree \<Rightarrow> error + MergeTree" where
  "insertText pos refSeq cid sq text mt =
     insertSegment refSeq cid pos
       \<lparr>content = TextSegment text, seq = sq, clientId = cid, removedSeq = None,
        removedClientIds = []\<rparr> mt"

definition insertMarker ::
  "nat \<Rightarrow> seqnum \<Rightarrow> int \<Rightarrow> seqnum \<Rightarrow> ReferenceType set \<Rightarrow> PropertySet \<Rightarrow> MergeTree
     \<Rightarrow> error + MergeTree" where
  "insertMarker pos refSeq cid sq behaviors props mt =
     insertSegment refSeq cid pos
       \<lparr>content = Marker behaviors props, seq = sq, clientId = cid, removedSeq = None,
        removedClientIds = []\<rparr> mt"






subsection \<open>The flat-edit checks of the test (routerlicious, merge-tree test)\<close>







section \<open>Range context: the document-tree test and \<open>getStackContext\<close>\<close>

subsection \<open>The client and the stack computation (spec-modelled)\<close>

text \<open>
  Modelled from the spec: \<open>Client\<close> and \<open>MergeTree.getStackContext\<close> belong to the
  engine that is not among the sources. A client (spec, section 3) owns one tree and
  has the short numeric id it is given when it starts to collaborate, and its
  current sequence number; the id is a parameter here. A local edit (section 4.4) is
  applied to the client's own tree at once, in the client's view, with the unassigned
  sequence number.
\<close>

record Client =
  mergeTree :: MergeTree
  clientId :: int
  longClientId :: string
  currentSeq :: seqnum



definition insertTextLocal :: "string \<Rightarrow> nat \<Rightarrow> Client \<Rightarrow> error + Client" where
  "insertTextLocal s pos cl =
     (case insertText pos (currentSeq cl) (Client.clientId cl) UnassignedSequenceNumber s
             (mergeTree cl) of
        Inl e \<Rightarrow> Inl e
      | Inr mt \<Rightarrow> Inr (cl\<lparr>mergeTree := mt\<rparr>))"

definition insertMarkerLocal ::
  "nat \<Rightarrow> ReferenceType set \<Rightarrow> PropertySet \<Rightarrow> Client \<Rightarrow> error + Client" where
  "insertMarkerLocal pos behaviors props cl =
     (case insertMarker pos (currentSeq cl) (Client.clientId cl) UnassignedSequenceNumber
             behaviors props (mergeTree cl) of
        Inl e \<Rightarrow> Inl e
      | Inr mt \<Rightarrow> Inr (cl\<lparr>mergeTree := mt\<rparr>))"

text \<open>
  The range-context stack (spec, section 4.6): one pass over the segments of the
  view, from the first to the one that holds the position, with a stack per requested
  label; a marker that opens a range is pushed on the stack of each of its labels, a
  marker that closes one pops it. The segment that holds the position is part of the
  descent: a marker at the position is applied as the markers before it are, so a
  range encloses the positions from its opening marker up to its closing marker, the
  closing marker excluded. A stack is a list with its bottom first, as the \<open>items\<close>
  array of the test's \<open>Collections.Stack\<close>; a label that never saw a marker has no
  stack. The call names no reference sequence number: the client's view at the
  universal sequence number is read.
\<close>

type_synonym RangeStacks = "string \<rightharpoonup> Segment list"

definition pushMarker :: "Segment \<Rightarrow> string \<Rightarrow> RangeStacks \<Rightarrow> RangeStacks" where
  "pushMarker m l st = st(l \<mapsto> (case st l of None \<Rightarrow> [m] | Some xs \<Rightarrow> xs @ [m]))"

definition popMarker :: "string \<Rightarrow> RangeStacks \<Rightarrow> RangeStacks" where
  "popMarker l st = (case st l of None \<Rightarrow> st | Some xs \<Rightarrow> st(l \<mapsto> butlast xs))"

definition applyRangeMarker :: "string list \<Rightarrow> Segment \<Rightarrow> RangeStacks \<Rightarrow> RangeStacks" where
  "applyRangeMarker labels s st =
     (case content s of
        TextSegment t \<Rightarrow> st
      | Marker rt props \<Rightarrow>
          if NestBegin \<in> rt
          then fold (pushMarker s) (filter (\<lambda>l. l \<in> set labels) (rangeLabels props)) st
          else if NestEnd \<in> rt
          then fold popMarker (filter (\<lambda>l. l \<in> set labels) (rangeLabels props)) st
          else st)"

fun scanStacks ::
  "seqnum \<Rightarrow> int \<Rightarrow> string list \<Rightarrow> nat \<Rightarrow> MergeTree \<Rightarrow> RangeStacks \<Rightarrow> RangeStacks" where
  "scanStacks refSeq cid labels pos [] st = st"
| "scanStacks refSeq cid labels pos (s # ss) st =
     (let len = viewLength refSeq cid s in
      if len = 0 then scanStacks refSeq cid labels pos ss st
      else if pos < len then applyRangeMarker labels s st
      else scanStacks refSeq cid labels (pos - len) ss (applyRangeMarker labels s st))"


definition getId :: "Segment \<Rightarrow> string option" where
  "getId s = (case content s of TextSegment t \<Rightarrow> None | Marker rt props \<Rightarrow> markerId props)"

subsection \<open>The document tree of the test (routerlicious, merge-tree test)\<close>

text \<open>
  \<open>DocumentNode = string | DocumentTree\<close>; a \<open>DocumentTree\<close> has a name, children and
  an \<open>id\<close> that is undefined until \<open>addToMergeTree\<close> sets it. The fields \<open>pos\<close> and
  \<open>ids\<close> of the root, which \<open>addToMergeTree\<close> updates, are passed with the client as
  the state of the walk. \<open>ids\<close> is the dictionary \<open>{box: 0, row: 0}\<close>; reading it at
  another name yields \<open>undefined\<close>, and the call of \<open>toString\<close> on that is the
  \<open>TypeError\<close> of the model.
\<close>

datatype DocumentNode = StringNode string | DocumentTree string "string option" "DocumentNode list"

function numberToString :: "nat \<Rightarrow> string" where
  "numberToString n =
     (if n < 10 then [''0123456789'' ! n]
      else numberToString (n div 10) @ [''0123456789'' ! (n mod 10)])"
  by pat_completeness auto

termination
  by (relation "measure (\<lambda>n. n)") auto

declare numberToString.simps [simp del]

type_synonym DocState = "Client \<times> nat \<times> (string \<rightharpoonup> nat)"

text \<open>
  \<open>addToMergeTree\<close>, in the source's three steps. Before the children: a text is
  inserted at \<open>pos\<close>; a \<open>pg\<close> inserts its tile; another tree takes its id from the
  counter of its name, which it increments, and inserts its opening marker (a \<open>row\<close>
  is a tile for \<open>pg\<close> as well). Then the children are added. After the children a
  tree other than a \<open>pg\<close> inserts its closing marker, whose id is \<open>end-\<close> followed by
  the name and the counter read before.
\<close>

definition insertOpening ::
  "DocState \<Rightarrow> string \<Rightarrow> error + DocState \<times> nat option" where
  "insertOpening st nm =
     (case st of (client, pos, ids) \<Rightarrow>
        if nm = ''pg'' then
          (case insertMarkerLocal pos {Tile}
                  \<lparr>markerId = None, rangeLabels = [], tileLabels = [nm]\<rparr> client of
             Inl e \<Rightarrow> Inl e
           | Inr client' \<Rightarrow> Inr ((client', pos + 1, ids), None))
        else
          (case ids nm of
             None \<Rightarrow> Inl TypeError
           | Some n \<Rightarrow>
               (case insertMarkerLocal pos
                       (if nm = ''row'' then {NestBegin, Tile} else {NestBegin})
                       \<lparr>markerId = Some (nm @ numberToString n), rangeLabels = [nm],
                        tileLabels = (if nm = ''row'' then [''pg''] else [])\<rparr> client of
                  Inl e \<Rightarrow> Inl e
                | Inr client' \<Rightarrow> Inr ((client', pos + 1, ids(nm \<mapsto> n + 1)), Some n))))"

definition insertClosing ::
  "DocState \<Rightarrow> string \<Rightarrow> nat option \<Rightarrow> error + DocState" where
  "insertClosing st nm counter =
     (case st of (client, pos, ids) \<Rightarrow>
        (case counter of
           None \<Rightarrow> Inr st
         | Some n \<Rightarrow>
             (case insertMarkerLocal pos {NestEnd}
                     \<lparr>markerId = Some (''end-'' @ nm @ numberToString n),
                      rangeLabels = [nm], tileLabels = []\<rparr> client of
                Inl e \<Rightarrow> Inl e
              | Inr client' \<Rightarrow> Inr (client', pos + 1, ids))))"

definition assignedId :: "string \<Rightarrow> string option \<Rightarrow> nat option \<Rightarrow> string option" where
  "assignedId nm i counter =
     (case counter of None \<Rightarrow> i | Some n \<Rightarrow> Some (nm @ numberToString n))"

fun addToMergeTree :: "DocState \<Rightarrow> DocumentNode \<Rightarrow> error + DocState \<times> DocumentNode"
  and addChildren :: "DocState \<Rightarrow> DocumentNode list \<Rightarrow> error + DocState \<times> DocumentNode list"
where
  "addToMergeTree st (StringNode s) =
     (case insertTextLocal s (fst (snd st)) (fst st) of
        Inl e \<Rightarrow> Inl e
      | Inr client' \<Rightarrow> Inr ((client', fst (snd st) + length s, snd (snd st)), StringNode s))"
| "addToMergeTree st (DocumentTree nm i cs) =
     (case insertOpening st nm of
        Inl e \<Rightarrow> Inl e
      | Inr opened \<Rightarrow>
          (case addChildren (fst opened) cs of
             Inl e \<Rightarrow> Inl e
           | Inr added \<Rightarrow>
               (case insertClosing (fst added) nm (snd opened) of
                  Inl e \<Rightarrow> Inl e
                | Inr st' \<Rightarrow>
                    Inr (st', DocumentTree nm (assignedId nm i (snd opened)) (snd added)))))"
| "addChildren st [] = Inr (st, [])"
| "addChildren st (c # cs) =
     (case addToMergeTree st c of
        Inl e \<Rightarrow> Inl e
      | Inr added \<Rightarrow>
          (case addChildren (fst added) cs of
             Inl e \<Rightarrow> Inl e
           | Inr rest \<Rightarrow> Inr (fst rest, snd added # snd rest)))"


text \<open>
  The full recursive walk, \<open>checkNodeStacks\<close> of \<open>checkStacksAllPositions\<close>: it keeps
  the position and a stack of ids per name; on a text it looks at the stacks at the
  position of the text; on a \<open>pg\<close> it steps over the tile and walks the first child;
  on another tree it steps over the opening marker, pushes the id of the tree, walks
  the children, pops and steps over the closing marker. Where the source compares the
  stacks with the client's at once, the model records them with the span of the
  text: \<open>(pos, epos, stacks)\<close>. An id can be undefined, hence the option.
\<close>

type_synonym TreeStacks = "string \<rightharpoonup> string option list"

type_synonym Observation = "nat \<times> nat \<times> TreeStacks"

fun checkNodeStacks ::
  "nat \<times> TreeStacks \<Rightarrow> DocumentNode \<Rightarrow> error + (nat \<times> TreeStacks) \<times> Observation list"
  and checkChildrenStacks ::
  "nat \<times> TreeStacks \<Rightarrow> DocumentNode list \<Rightarrow> error + (nat \<times> TreeStacks) \<times> Observation list"
where
  "checkNodeStacks st (StringNode s) =
     Inr ((fst st + length s, snd st), [(fst st, fst st + length s, snd st)])"
| "checkNodeStacks st (DocumentTree nm i cs) =
     (if nm = ''pg'' then
        (case cs of
           [] \<Rightarrow> Inl TypeError
         | c # rest \<Rightarrow> checkNodeStacks (fst st + 1, snd st) c)
      else
        (case snd st nm of
           None \<Rightarrow> Inl TypeError
         | Some items \<Rightarrow>
             (case checkChildrenStacks (fst st + 1, (snd st)(nm \<mapsto> items @ [i])) cs of
                Inl e \<Rightarrow> Inl e
              | Inr walked \<Rightarrow>
                  (case snd (fst walked) nm of
                     None \<Rightarrow> Inl TypeError
                   | Some items' \<Rightarrow>
                       Inr ((fst (fst walked) + 1, (snd (fst walked))(nm \<mapsto> butlast items')),
                            snd walked)))))"
| "checkChildrenStacks st [] = Inr (st, [])"
| "checkChildrenStacks st (c # cs) =
     (case checkNodeStacks st c of
        Inl e \<Rightarrow> Inl e
      | Inr walked \<Rightarrow>
          (case checkChildrenStacks (fst walked) cs of
             Inl e \<Rightarrow> Inl e
           | Inr rest \<Rightarrow> Inr (fst rest, snd walked @ snd rest)))"




definition stackIds :: "RangeStacks \<Rightarrow> string \<Rightarrow> string option list" where
  "stackIds st l = (case st l of None \<Rightarrow> [] | Some items \<Rightarrow> map getId items)"

text \<open>
  Documents built from nested \<open>row\<close>, \<open>box\<close> and \<open>pg\<close> nodes: every tree is one of the
  three, and a \<open>pg\<close> holds its text and nothing else. The grammar of the source
  (\<open>Row -> row[Box*]\<close>, \<open>Box -> box[Content]\<close>, \<open>Content -> (Row|Paragraph)*\<close>,
  \<open>Paragraph -> pgtile text\<close>) generates such documents.
\<close>

fun nested :: "DocumentNode \<Rightarrow> bool" and nestedAll :: "DocumentNode list \<Rightarrow> bool" where
  "nested (StringNode s) = True"
| "nested (DocumentTree nm i cs) =
     (if nm = ''pg'' then (case cs of [StringNode s] \<Rightarrow> True | _ \<Rightarrow> False)
      else (nm = ''row'' \<or> nm = ''box'') \<and> nestedAll cs)"
| "nestedAll [] = True"
| "nestedAll (c # cs) = (nested c \<and> nestedAll cs)"

fun isParagraph :: "DocumentNode \<Rightarrow> bool" where
  "isParagraph (DocumentTree nm i [StringNode s]) = (nm = ''pg'')"
| "isParagraph n = False"

fun isRow :: "DocumentNode \<Rightarrow> bool"
  and isBox :: "DocumentNode \<Rightarrow> bool"
  and isContent :: "DocumentNode list \<Rightarrow> bool"
  and isBoxes :: "DocumentNode list \<Rightarrow> bool"
where
  "isRow (DocumentTree nm i cs) = (nm = ''row'' \<and> isBoxes cs)"
| "isRow (StringNode s) = False"
| "isBox (DocumentTree nm i cs) = (nm = ''box'' \<and> isContent cs)"
| "isBox (StringNode s) = False"
| "isContent [] = True"
| "isContent (c # cs) = ((isRow c \<or> isParagraph c) \<and> isContent cs)"
| "isBoxes [] = True"
| "isBoxes (c # cs) = (isBox c \<and> isBoxes cs)"

text \<open>
  The enclosing ranges in the spec's words (section 4.6: the hierarchy re-derived by
  a full recursive walk of the tree): a recursive descent of the document tree to a
  position, which collects the id of every tree with the label that it enters, the
  outermost first. A text takes as many positions as it has characters, a \<open>pg\<close> one
  for its tile before its text, another tree one for its opening marker before its
  children and one for its closing marker after them; the tree is entered at its
  opening marker and left at its closing marker. The position is counted from the
  start of the node, and of the list.
\<close>

fun nodeLength :: "DocumentNode \<Rightarrow> nat" and nodesLength :: "DocumentNode list \<Rightarrow> nat" where
  "nodeLength (StringNode s) = length s"
| "nodeLength (DocumentTree nm i cs) =
     (if nm = ''pg'' then nodesLength cs + 1 else nodesLength cs + 2)"
| "nodesLength [] = 0"
| "nodesLength (c # cs) = nodeLength c + nodesLength cs"

fun enclosing :: "string \<Rightarrow> nat \<Rightarrow> DocumentNode \<Rightarrow> string option list"
  and enclosingAll :: "string \<Rightarrow> nat \<Rightarrow> DocumentNode list \<Rightarrow> string option list"
where
  "enclosing l q (StringNode s) = []"
| "enclosing l q (DocumentTree nm i cs) =
     (if nm = ''pg'' then (if q = 0 then [] else enclosingAll l (q - 1) cs)
      else if q < nodesLength cs + 1 then
        (if nm = l then [i] else []) @ (if q = 0 then [] else enclosingAll l (q - 1) cs)
      else [])"
| "enclosingAll l q [] = []"
| "enclosingAll l q (c # cs) =
     (if q < nodeLength c then enclosing l q c
      else enclosingAll l (q - nodeLength c) cs)"

subsection \<open>Notions used in the proofs\<close>

text \<open>
  What \<open>addToMergeTree\<close> leaves in the tree: segments the client has inserted itself
  and that nobody has removed. They count with their full length in every view of
  the client.
\<close>

definition ownSegment :: "int \<Rightarrow> SegmentContent \<Rightarrow> Segment" where
  "ownSegment c x =
     \<lparr>content = x, seq = UnassignedSequenceNumber, clientId = c, removedSeq = None,
      removedClientIds = []\<rparr>"

definition own :: "int \<Rightarrow> Segment \<Rightarrow> bool" where
  "own c s = (Segment.clientId s = c \<and> removedSeq s = None)"

definition ownLength :: "Segment list \<Rightarrow> nat" where
  "ownLength segs = sum_list (map (\<lambda>s. contentLength (content s)) segs)"

text \<open>
  The segments of a document node whose ids are set, in document order: a text is a
  text segment; a \<open>pg\<close> is its tile and its children; another tree is its opening
  marker, which carries the id, its children and its closing marker.
\<close>

definition endId :: "string \<Rightarrow> string" where
  "endId x = ''end-'' @ x"

fun emit :: "int \<Rightarrow> DocumentNode \<Rightarrow> Segment list"
  and emitAll :: "int \<Rightarrow> DocumentNode list \<Rightarrow> Segment list"
where
  "emit c (StringNode s) = [ownSegment c (TextSegment s)]"
| "emit c (DocumentTree nm i cs) =
     (if nm = ''pg'' then
        ownSegment c (Marker {Tile} \<lparr>markerId = None, rangeLabels = [], tileLabels = [nm]\<rparr>)
        # emitAll c cs
      else
        ownSegment c
          (Marker (if nm = ''row'' then {NestBegin, Tile} else {NestBegin})
             \<lparr>markerId = i, rangeLabels = [nm],
              tileLabels = (if nm = ''row'' then [''pg''] else [])\<rparr>)
        # emitAll c cs
        @ [ownSegment c
             (Marker {NestEnd}
                \<lparr>markerId = map_option endId i, rangeLabels = [nm],
                 tileLabels = []\<rparr>)])"
| "emitAll c [] = []"
| "emitAll c (n # ns) = emit c n @ emitAll c ns"

definition docInv :: "int \<Rightarrow> DocState \<Rightarrow> bool" where
  "docInv c st =
     (Client.clientId (fst st) = c
      \<and> (\<forall>s \<in> set (mergeTree (fst st)). own c s)
      \<and> fst (snd st) = ownLength (mergeTree (fst st))
      \<and> snd (snd st) ''box'' \<noteq> None \<and> snd (snd st) ''row'' \<noteq> None)"

definition stackLabels :: "string list" where
  "stackLabels = [''box'', ''row'']"

text \<open>The client's stacks hold, name by name, the ids of the walk's stacks.\<close>

definition agrees :: "RangeStacks \<Rightarrow> TreeStacks \<Rightarrow> bool" where
  "agrees S stacks =
     (stacks ''box'' = Some (stackIds S ''box'') \<and> stacks ''row'' = Some (stackIds S ''row''))"

text \<open>
  The statement of the induction. The walk stands at a node; \<open>pre\<close> are the segments
  before it, \<open>em\<close> the segments of the node. The walk returns, at the position after
  the node and with its stacks as they were; the scan over the node leaves stacks
  that agree with them again; and at every position of a text that the walk has
  recorded, the scan of any tree that continues \<open>pre @ em\<close> agrees with the stacks
  recorded.
\<close>

definition walked ::
  "int \<Rightarrow> Segment list \<Rightarrow> TreeStacks
     \<Rightarrow> error + (nat \<times> TreeStacks) \<times> Observation list \<Rightarrow> Segment list \<Rightarrow> bool" where
  "walked c pre stacks res em =
     (\<exists>obs. res = Inr ((ownLength (pre @ em), stacks), obs)
        \<and> agrees (fold (applyRangeMarker stackLabels) (pre @ em) Map.empty) stacks
        \<and> (\<forall>ob \<in> set obs. \<forall>suf q.
              fst ob \<le> q \<and> q < fst (snd ob) \<longrightarrow>
              agrees (scanStacks UniversalSequenceNumber c stackLabels q (pre @ em @ suf)
                        Map.empty) (snd (snd ob))))"

text \<open>
  What the scan does with the segments \<open>em\<close> of a node, or of a list of nodes, that
  takes \<open>len\<close> positions and whose enclosing ranges are \<open>enc\<close>: the segments are as
  long, the scan over all of them leaves the ids of every stack as they were, and
  the scan to a position inside them adds the enclosing ranges to the ids that the
  stack held before.
\<close>

definition scans ::
  "int \<Rightarrow> Segment list \<Rightarrow> nat \<Rightarrow> (string \<Rightarrow> nat \<Rightarrow> string option list) \<Rightarrow> bool" where
  "scans c em len enc =
     (ownLength em = len
      \<and> (\<forall>S l. stackIds (fold (applyRangeMarker stackLabels) em S) l = stackIds S l)
      \<and> (\<forall>S q suf l. q < len \<longrightarrow>
            stackIds (scanStacks UniversalSequenceNumber c stackLabels q (em @ suf) S) l
              = stackIds S l @ enc l q))"


section \<open>Properties: operation envelopes (routerlicious, core/messages.ts)\<close>

text \<open>
  Claim C8. The raw and the sequenced operation forms are distinct wire shapes: their
  type tags are the strings \<open>RawOperation\<close> and \<open>SequencedOperation\<close>, which differ; a
  raw operation message carries \<open>documentId\<close>, \<open>clientId\<close>, \<open>user\<close>, \<open>timestamp\<close> and
  the submitted operation; the sequenced message is a record of another type, which
  carries \<open>documentId\<close> and the sequenced operation with its sequence number (and has
  no \<open>clientId\<close>, \<open>user\<close> or \<open>timestamp\<close> field of its own).
\<close>

theorem raw_and_sequenced_wire_shapes:
  fixes raw :: "('u, 'op) IRawOperationMessage"
    and sequenced :: "'c ISequencedOperationMessage"
  shows "RawOperationType = ''RawOperation''
    \<and> SequencedOperationType = ''SequencedOperation''
    \<and> RawOperationType \<noteq> SequencedOperationType
    \<and> raw = \<lparr>type = IMessage.type raw, user = user raw,
          IObjectMessage.documentId = IObjectMessage.documentId raw,
          clientId = IObjectMessage.clientId raw, timestamp = timestamp raw,
          IRawOperationMessage.operation = IRawOperationMessage.operation raw\<rparr>
    \<and> sequenced = \<lparr>type = IMessage.type sequenced,
          ITicketedMessage.documentId = ITicketedMessage.documentId sequenced,
          ISequencedOperationMessage.operation =
            \<lparr>ISequencedDocumentMessage.sequenceNumber =
              ISequencedDocumentMessage.sequenceNumber
                (ISequencedOperationMessage.operation sequenced),
            contents = contents (ISequencedOperationMessage.operation sequenced)\<rparr>\<rparr>"
  by (simp add: RawOperationType_def SequencedOperationType_def)

section \<open>Properties: telemetry type guard (common-definitions, logger.ts)\<close>

lemma typeof_string: "typeof v = ''string'' \<longleftrightarrow> (\<exists>s. v = JString s)"
  by (cases v) simp_all

lemma typeof_object: "typeof v = ''object'' \<longleftrightarrow> v = JNull \<or> (\<exists>qs. v = JObject qs)"
  by (cases v) simp_all

lemma readProperty_data:
  "list_all (\<lambda>kp. isDataProperty (snd kp)) ps \<Longrightarrow> \<exists>v. readProperty ps k = Normal v"
proof (cases "map_of ps k")
  case None
  then show ?thesis by (simp add: readProperty_def)
next
  case (Some p)
  assume d: "list_all (\<lambda>kp. isDataProperty (snd kp)) ps"
  from Some have "(k, p) \<in> set ps" by (rule map_of_SomeD)
  with d have "isDataProperty p" by (auto simp add: list_all_iff)
  then show ?thesis using Some by (cases p) (simp_all add: readProperty_def)
qed

lemma optionalChain_data: "dataProperties x \<Longrightarrow> \<exists>v. optionalChain x k = Normal v"
  by (cases x) (simp_all add: readProperty_data)

text \<open>
  Claim C9, as the code has it. The guard throws exactly when the read of \<open>value\<close>
  throws, or when it returns a value whose \<open>typeof\<close> is not \<open>object\<close> and the read of
  \<open>tag\<close> throws; it never throws on a value whose properties are data properties, on
  \<open>null\<close> or on \<open>undefined\<close>. When the reads return, it returns true exactly when the
  \<open>typeof\<close> of the \<open>value\<close> field is not \<open>object\<close> and the \<open>typeof\<close> of the \<open>tag\<close> field is
  \<open>string\<close>: exactly when \<open>x\<close> is an object or a function whose \<open>tag\<close> reads as a
  string and whose \<open>value\<close> reads as neither \<open>null\<close> nor an object. It is false on
  \<open>null\<close>, on \<open>undefined\<close> and whenever \<open>x.value\<close> is \<open>null\<close>; it is true when \<open>x.tag\<close> is
  a string and \<open>x.value\<close> is a function, although a function is no
  \<open>TelemetryEventPropertyType\<close>.
\<close>

theorem isTaggedTelemetryPropertyValue_characterised:
  "(isTaggedTelemetryPropertyValue x = Throw e \<longleftrightarrow>
      optionalChain x ''value'' = Throw e
      \<or> (\<exists>v. optionalChain x ''value'' = Normal v \<and> typeof v \<noteq> ''object''
            \<and> optionalChain x ''tag'' = Throw e))
   \<and> (dataProperties x \<longrightarrow> (\<exists>b. isTaggedTelemetryPropertyValue x = Normal b))
   \<and> (optionalChain x ''value'' = Normal v \<and> optionalChain x ''tag'' = Normal t \<longrightarrow>
        isTaggedTelemetryPropertyValue x
          = Normal (typeof v \<noteq> ''object'' \<and> typeof t = ''string''))
   \<and> (isTaggedTelemetryPropertyValue x = Normal True \<longleftrightarrow>
        (\<exists>v' t'. optionalChain x ''value'' = Normal v' \<and> typeof v' \<noteq> ''object''
           \<and> optionalChain x ''tag'' = Normal t' \<and> typeof t' = ''string''))
   \<and> (isTaggedTelemetryPropertyValue x = Normal True \<longleftrightarrow>
        (\<exists>qs. (x = JObject qs \<or> x = JFunction qs)
           \<and> (\<exists>s'. readProperty qs ''tag'' = Normal (JString s'))
           \<and> (\<exists>v'. readProperty qs ''value'' = Normal v' \<and> v' \<noteq> JNull
                 \<and> (\<forall>rs. v' \<noteq> JObject rs))))
   \<and> isTaggedTelemetryPropertyValue JNull = Normal False
   \<and> isTaggedTelemetryPropertyValue JUndefined = Normal False
   \<and> (optionalChain x ''value'' = Normal JNull \<longrightarrow>
        isTaggedTelemetryPropertyValue x = Normal False)
   \<and> (optionalChain x ''tag'' = Normal (JString s)
        \<and> optionalChain x ''value'' = Normal (JFunction ps) \<longrightarrow>
        isTaggedTelemetryPropertyValue x = Normal True
        \<and> \<not> isTelemetryEventPropertyType (JFunction ps))"
proof -
  have throws: "isTaggedTelemetryPropertyValue x = Throw e \<longleftrightarrow>
      optionalChain x ''value'' = Throw e
      \<or> (\<exists>v. optionalChain x ''value'' = Normal v \<and> typeof v \<noteq> ''object''
            \<and> optionalChain x ''tag'' = Throw e)"
    by (auto simp add: isTaggedTelemetryPropertyValue_def split: completion.splits)
  have total: "dataProperties x \<longrightarrow> (\<exists>b. isTaggedTelemetryPropertyValue x = Normal b)"
  proof
    assume d: "dataProperties x"
    from optionalChain_data [OF d, of "''value''"] obtain a where
      a: "optionalChain x ''value'' = Normal a" by blast
    from optionalChain_data [OF d, of "''tag''"] obtain b where
      b: "optionalChain x ''tag'' = Normal b" by blast
    show "\<exists>b. isTaggedTelemetryPropertyValue x = Normal b"
      using a b by (auto simp add: isTaggedTelemetryPropertyValue_def)
  qed
  have returns: "optionalChain x ''value'' = Normal v \<and> optionalChain x ''tag'' = Normal t \<longrightarrow>
        isTaggedTelemetryPropertyValue x
          = Normal (typeof v \<noteq> ''object'' \<and> typeof t = ''string'')"
    by (simp add: isTaggedTelemetryPropertyValue_def)
  have true: "isTaggedTelemetryPropertyValue x = Normal True \<longleftrightarrow>
        (\<exists>v' t'. optionalChain x ''value'' = Normal v' \<and> typeof v' \<noteq> ''object''
           \<and> optionalChain x ''tag'' = Normal t' \<and> typeof t' = ''string'')"
    by (auto simp add: isTaggedTelemetryPropertyValue_def split: completion.splits)
  have shape: "isTaggedTelemetryPropertyValue x = Normal True \<longleftrightarrow>
        (\<exists>qs. (x = JObject qs \<or> x = JFunction qs)
           \<and> (\<exists>s'. readProperty qs ''tag'' = Normal (JString s'))
           \<and> (\<exists>v'. readProperty qs ''value'' = Normal v' \<and> v' \<noteq> JNull
                 \<and> (\<forall>rs. v' \<noteq> JObject rs)))"
  proof (cases x)
    case (JObject qs)
    then show ?thesis
      unfolding true by (auto simp add: typeof_string typeof_object)
  next
    case (JFunction qs)
    then show ?thesis
      unfolding true by (auto simp add: typeof_string typeof_object)
  qed (simp_all add: isTaggedTelemetryPropertyValue_def)
  have rest: "isTaggedTelemetryPropertyValue JNull = Normal False
   \<and> isTaggedTelemetryPropertyValue JUndefined = Normal False
   \<and> (optionalChain x ''value'' = Normal JNull \<longrightarrow>
        isTaggedTelemetryPropertyValue x = Normal False)
   \<and> (optionalChain x ''tag'' = Normal (JString s)
        \<and> optionalChain x ''value'' = Normal (JFunction ps) \<longrightarrow>
        isTaggedTelemetryPropertyValue x = Normal True
        \<and> \<not> isTelemetryEventPropertyType (JFunction ps))"
    by (simp add: isTaggedTelemetryPropertyValue_def isTelemetryEventPropertyType_def)
  from throws total returns true shape rest show ?thesis by (intro conjI) simp_all
qed

theorem isTaggedTelemetryPropertyValue_witness:
  "isTaggedTelemetryPropertyValue
     (JObject [(''value'', DataProperty (JFunction [])),
               (''tag'', DataProperty (JString ''UserData''))]) = Normal True
   \<and> \<not> isTelemetryEventPropertyType (JFunction [])
   \<and> isTaggedTelemetryPropertyValue
       (JObject [(''value'', DataProperty JNull),
                 (''tag'', AccessorProperty (Throw (JString ''no tag'')))]) = Normal False
   \<and> dataProperties
       (JObject [(''value'', DataProperty (JFunction [])),
                 (''tag'', DataProperty (JString ''UserData''))])"
  using isTaggedTelemetryPropertyValue_characterised
          [of "JObject [(''value'', DataProperty (JFunction [])),
                        (''tag'', DataProperty (JString ''UserData''))]"
              "JString ''boom''" "JFunction []" "JString ''UserData''" "''UserData''" "[]"]
        isTaggedTelemetryPropertyValue_characterised
          [of "JObject [(''value'', DataProperty JNull),
                        (''tag'', AccessorProperty (Throw (JString ''no tag'')))]"
              "JString ''boom''" "JNull" "JString ''UserData''" "''UserData''" "[]"]
  by (simp add: readProperty_def)

text \<open>
  The claim as stated, that the guard never throws, fails on an object whose \<open>value\<close>
  is an accessor that throws, and on one whose \<open>value\<close> is a number and whose \<open>tag\<close>
  is such an accessor: the call ends with what the getter throws.
\<close>

theorem isTaggedTelemetryPropertyValue_throws_counterexample:
  "isTaggedTelemetryPropertyValue
     (JObject [(''value'', AccessorProperty (Throw (JString ''boom''))),
               (''tag'', DataProperty (JString ''UserData''))]) = Throw (JString ''boom'')
   \<and> isTaggedTelemetryPropertyValue
       (JObject [(''value'', DataProperty (JNumber 1)),
                 (''tag'', AccessorProperty (Throw (JString ''boom'')))])
     = Throw (JString ''boom'')"
  by (simp add: isTaggedTelemetryPropertyValue_def readProperty_def)

section \<open>Properties: snapshot store: the repository manager (gitrest, utils.ts)\<close>

lemma posix_parse_repo:
  "dir (posix_parse ''repo'') = '''' \<and> base (posix_parse ''repo'') = ''repo''"
  by (simp add: posix_parse_def Let_def)


lemma posix_parse_constructor:
  "dir (posix_parse ''constructor'') = ''''
   \<and> base (posix_parse ''constructor'') = ''constructor''"
  by (simp add: posix_parse_def Let_def)


subsection \<open>The cache object\<close>


lemma proto_inherited: "hasProperty c ''__proto__''"
  by (simp add: hasProperty_def objectPrototypeNames_def)








subsection \<open>The two calls, case by case\<close>









lemma settle_Repository: "settle p = Inr (Repository r) \<longleftrightarrow> p = PromiseOf (Inr r)"
  by (cases p rule: settle.cases) auto


subsection \<open>Failure modes\<close>




text \<open>
  It fails as well at a name the cache object inherits: \<open>constructor\<close> is not cached on
  a new manager and its directory does not exist, yet \<open>open\<close> does not look for the
  directory and resolves, with the function \<open>Object\<close>.
\<close>

lemma open_inherited_name:
  "open' posix_parse vanished ''constructor'' (newRepositoryManager ''/var/git'')
     = (Inr (Builtin (ObjectPrototypeProperty ''constructor'')),
        newRepositoryManager ''/var/git'')
   \<and> ownProperties (repositoryCache (newRepositoryManager ''/var/git'')) ''constructor''
       = None
   \<and> \<not> exists vanished (''/var/git'' @ ''/'' @ ''constructor'')"
  using posix_parse_constructor
  by (simp add: vanished_def newRepositoryManager_def open'_def Let_def emptyObject_def
      hasProperty_def getProperty_def objectPrototypeNames_def)

subsection \<open>What \<open>create\<close> resolves with\<close>

text \<open>
  Claim C7 at a concrete input: \<open>create\<close> of a plain name, with a git library that
  initialises the repository, caches the repository and resolves with \<open>undefined\<close>,
  not with the handle; \<open>open\<close> of the same name then resolves with the handle.
\<close>

theorem create_resolves_with_undefined:
  "fst (create posix_parse healthy ''repo'' (newRepositoryManager ''/var/git''))
     = Inr Undefined
   \<and> ownProperties (repositoryCache
        (snd (create posix_parse healthy ''repo'' (newRepositoryManager ''/var/git''))))
        ''repo'' = Some (Inr 1)
   \<and> fst (open' posix_parse healthy ''repo''
        (snd (create posix_parse healthy ''repo'' (newRepositoryManager ''/var/git''))))
     = Inr (Repository 1)"
  using posix_parse_repo
  by (simp add: healthy_def newRepositoryManager_def create_def open'_def Let_def
      emptyObject_def setProperty_def hasProperty_def getProperty_def)

subsection \<open>The cache over a history of calls\<close>















section \<open>Properties: range index: the interval tree (spec-modelled)\<close>

subsection \<open>The order of the keys\<close>

lemma compareRanges_less:
  "compareRanges a b < 0 \<longleftrightarrow> start a < start b \<or> (start a = start b \<and> end' a < end' b)"
  by (auto simp add: compareRanges_def)

lemma compareRanges_greater:
  "compareRanges a b > 0 \<longleftrightarrow> compareRanges b a < 0"
  by (auto simp add: compareRanges_def)

lemma compareRanges_equal:
  "\<not> compareRanges a b < 0 \<Longrightarrow> \<not> compareRanges b a < 0 \<Longrightarrow> a = (b :: IIntegerRange)"
  by (cases "start a = start b") (auto simp add: compareRanges_def)

lemma compareRanges_trans:
  "compareRanges a b < 0 \<Longrightarrow> compareRanges b c < 0 \<Longrightarrow> compareRanges a c < 0"
  by (auto simp add: compareRanges_less)

lemma compareRanges_start:
  "compareRanges a b < 0 \<Longrightarrow> start a \<le> start b"
  by (auto simp add: compareRanges_less)

subsection \<open>Rotations and recolouring keep the invariants\<close>

lemma ranges_makeNode [simp]:
  "ranges (makeNode c l k r) = ranges l \<union> {k} \<union> ranges r"
  by (simp add: makeNode_def)

lemma keyOrdered_makeNode [simp]:
  "keyOrdered (makeNode c l k r) =
     (keyOrdered l \<and> keyOrdered r
      \<and> (\<forall>x \<in> ranges l. compareRanges x k < 0) \<and> (\<forall>x \<in> ranges r. compareRanges k x < 0))"
  by (simp add: makeNode_def)

lemma maxStored_makeNode [simp]:
  "maxStored (makeNode c l k r) = (maxStored l \<and> maxStored r)"
  by (simp add: makeNode_def)

lemma subtreeMax_makeNode [simp]:
  "subtreeMax (makeNode c l k r) d = max (subtreeMax l (subtreeMax r (end' k))) d"
  by (simp add: makeNode_def)

lemma isRed_makeNode [simp]: "isRed (makeNode c l k r) = (c = RED)"
  by (cases c) (simp_all add: makeNode_def)

lemma ranges_rotateLeft [simp]: "ranges (rotateLeft t) = ranges t"
  by (cases t rule: rotateLeft.cases) auto

lemma ranges_rotateRight [simp]: "ranges (rotateRight t) = ranges t"
  by (cases t rule: rotateRight.cases) auto

lemma ranges_flipColors [simp]: "ranges (flipColors t) = ranges t"
  by (cases t rule: flipColors.cases) auto

lemma ranges_fixUp [simp]: "ranges (fixUp t) = ranges t"
  by (simp add: fixUp_def Let_def)

lemma ranges_blacken [simp]: "ranges (blacken t) = ranges t"
  by (cases t) auto

lemma keyOrdered_rotateLeft: "keyOrdered t \<Longrightarrow> keyOrdered (rotateLeft t)"
proof (cases t rule: rotateLeft.cases)
  case (1 c l k m rc rl rk rm rr)
  assume ord: "keyOrdered t"
  then have krk: "compareRanges k rk < 0" using 1 by simp
  have "\<forall>x \<in> ranges l. compareRanges x rk < 0"
    using ord 1 krk by (auto intro: compareRanges_trans)
  then show ?thesis using ord 1 by auto
qed simp_all

lemma keyOrdered_rotateRight: "keyOrdered t \<Longrightarrow> keyOrdered (rotateRight t)"
proof (cases t rule: rotateRight.cases)
  case (1 c lc ll lk lm lr k m r)
  assume ord: "keyOrdered t"
  then have lkk: "compareRanges lk k < 0" using 1 by simp
  have "\<forall>x \<in> ranges r. compareRanges lk x < 0"
    using ord 1 lkk by (auto intro: compareRanges_trans)
  then show ?thesis using ord 1 by auto
qed simp_all

lemma keyOrdered_flipColors: "keyOrdered t \<Longrightarrow> keyOrdered (flipColors t)"
  by (cases t rule: flipColors.cases) auto

lemma keyOrdered_fixUp: "keyOrdered t \<Longrightarrow> keyOrdered (fixUp t)"
  by (simp add: fixUp_def Let_def keyOrdered_rotateLeft keyOrdered_rotateRight
      keyOrdered_flipColors)

lemma keyOrdered_blacken: "keyOrdered t \<Longrightarrow> keyOrdered (blacken t)"
  by (cases t) auto

lemma maxStored_rotateLeft: "maxStored t \<Longrightarrow> maxStored (rotateLeft t)"
  by (cases t rule: rotateLeft.cases) auto

lemma maxStored_rotateRight: "maxStored t \<Longrightarrow> maxStored (rotateRight t)"
  by (cases t rule: rotateRight.cases) auto

lemma maxStored_flipColors: "maxStored t \<Longrightarrow> maxStored (flipColors t)"
  by (cases t rule: flipColors.cases) auto

lemma maxStored_fixUp: "maxStored t \<Longrightarrow> maxStored (fixUp t)"
  by (simp add: fixUp_def Let_def maxStored_rotateLeft maxStored_rotateRight
      maxStored_flipColors)

lemma maxStored_blacken: "maxStored t \<Longrightarrow> maxStored (blacken t)"
  by (cases t) auto

subsection \<open>Insertion\<close>

lemma ranges_nodePut: "ranges (nodePut x t) = insert x (ranges t)"
proof (induction t)
  case Empty
  show ?case by simp
next
  case (RangeNode c l k m r)
  show ?case
  proof (cases "compareRanges x k < 0")
    case True
    then show ?thesis using RangeNode by auto
  next
    case False
    show ?thesis
    proof (cases "compareRanges x k > 0")
      case True
      then show ?thesis using False RangeNode by auto
    next
      case notgreater: False
      then have "x = k"
        using False compareRanges_equal [of x k] by (simp add: compareRanges_greater)
      then show ?thesis using False notgreater by auto
    qed
  qed
qed

lemma keyOrdered_nodePut: "keyOrdered t \<Longrightarrow> keyOrdered (nodePut x t)"
proof (induction t)
  case Empty
  show ?case by simp
next
  case (RangeNode c l k m r)
  show ?case
  proof (cases "compareRanges x k < 0")
    case True
    then have "keyOrdered (makeNode c (nodePut x l) k r)"
      using RangeNode by (auto simp add: ranges_nodePut)
    then show ?thesis using True by (simp add: keyOrdered_fixUp)
  next
    case False
    show ?thesis
    proof (cases "compareRanges x k > 0")
      case True
      then have "keyOrdered (makeNode c l k (nodePut x r))"
        using RangeNode by (auto simp add: ranges_nodePut compareRanges_greater)
      then show ?thesis using True False by (simp add: keyOrdered_fixUp)
    next
      case notgreater: False
      have "keyOrdered (fixUp (RangeNode c l k m r))"
        using RangeNode.prems by (rule keyOrdered_fixUp)
      then show ?thesis using False notgreater by simp
    qed
  qed
qed

lemma maxStored_nodePut: "maxStored t \<Longrightarrow> maxStored (nodePut x t)"
proof (induction t)
  case Empty
  show ?case by simp
next
  case (RangeNode c l k m r)
  have "maxStored (fixUp (RangeNode c l k m r))"
    using RangeNode.prems by (rule maxStored_fixUp)
  moreover have "maxStored (fixUp (makeNode c (nodePut x l) k r))"
    using RangeNode by (intro maxStored_fixUp) simp
  moreover have "maxStored (fixUp (makeNode c l k (nodePut x r)))"
    using RangeNode by (intro maxStored_fixUp) simp
  ultimately show ?case by simp
qed

lemma ranges_put [simp]: "ranges (put x t) = insert x (ranges t)"
  by (simp add: put_def ranges_nodePut)

lemma keyOrdered_put: "keyOrdered t \<Longrightarrow> keyOrdered (put x t)"
  by (simp add: put_def keyOrdered_blacken keyOrdered_nodePut)

lemma maxStored_put: "maxStored t \<Longrightarrow> maxStored (put x t)"
  by (simp add: put_def maxStored_blacken maxStored_nodePut)

lemma fold_put_invariants:
  "keyOrdered t \<Longrightarrow> maxStored t \<Longrightarrow>
   keyOrdered (fold put rs t) \<and> maxStored (fold put rs t)
   \<and> ranges (fold put rs t) = set rs \<union> ranges t"
proof (induction rs arbitrary: t)
  case Nil
  then show ?case by simp
next
  case (Cons x rs)
  from Cons.IH [OF keyOrdered_put [OF Cons.prems(1)] maxStored_put [OF Cons.prems(2)]]
  show ?case by auto
qed

lemma rangeTreeOf_invariants:
  "keyOrdered (rangeTreeOf rs) \<and> maxStored (rangeTreeOf rs) \<and> ranges (rangeTreeOf rs) = set rs"
  using fold_put_invariants [of Empty rs] by (simp add: rangeTreeOf_def)

subsection \<open>Matching\<close>

lemma subtreeMax_ge: "d \<le> subtreeMax t d"
  by (cases t) auto

lemma subtreeMax_mono: "d \<le> d' \<Longrightarrow> subtreeMax t d \<le> subtreeMax t d'"
  by (cases t) auto

lemma end_le_subtreeMax:
  "maxStored t \<Longrightarrow> i \<in> ranges t \<Longrightarrow> end' i \<le> subtreeMax t d"
proof (induction t arbitrary: d)
  case Empty
  then show ?case by simp
next
  case (RangeNode c l k m r)
  have m: "m = subtreeMax l (subtreeMax r (end' k))" using RangeNode.prems(1) by simp
  have "end' i \<le> m"
  proof -
    consider "i \<in> ranges l" | "i = k" | "i \<in> ranges r"
      using RangeNode.prems(2) by auto
    then show ?thesis
    proof cases
      case 1
      then show ?thesis using RangeNode.IH(1) RangeNode.prems(1) m by simp
    next
      case 2
      have "end' k \<le> subtreeMax r (end' k)" by (rule subtreeMax_ge)
      also have "\<dots> \<le> subtreeMax l (subtreeMax r (end' k))" by (rule subtreeMax_ge)
      finally show ?thesis using 2 m by simp
    next
      case 3
      then have "end' i \<le> subtreeMax r (end' k)"
        using RangeNode.IH(2) RangeNode.prems(1) by simp
      also have "\<dots> \<le> subtreeMax l (subtreeMax r (end' k))" by (rule subtreeMax_ge)
      finally show ?thesis using m by simp
    qed
  qed
  then show ?case by simp
qed

lemma match_exact:
  "keyOrdered t \<Longrightarrow> maxStored t \<Longrightarrow>
   set (match q t) = {i \<in> ranges t. rangeOverlaps i q}"
proof (induction t)
  case Empty
  show ?case by simp
next
  case (RangeNode c l k m r)
  have l: "set (match q l) = {i \<in> ranges l. rangeOverlaps i q}"
    and r: "set (match q r) = {i \<in> ranges r. rangeOverlaps i q}"
    using RangeNode by simp_all
  show ?case
  proof (cases "m \<le> start q")
    case True
    have "\<not> rangeOverlaps i q" if "i \<in> ranges (RangeNode c l k m r)" for i
    proof -
      have "end' i \<le> subtreeMax (RangeNode c l k m r) m"
        using end_le_subtreeMax [OF RangeNode.prems(2) that] .
      then show ?thesis using True by (simp add: rangeOverlaps_def)
    qed
    then show ?thesis using True by auto
  next
    case reach: False
    show ?thesis
    proof (cases "start k < end' q")
      case True
      then show ?thesis using reach l r by auto
    next
      case False
      have "\<not> rangeOverlaps i q" if "i \<in> ranges r" for i
      proof -
        have "start k \<le> start i"
          using RangeNode.prems(1) that by (auto intro: compareRanges_start)
        then show ?thesis using False by (simp add: rangeOverlaps_def)
      qed
      then show ?thesis using reach False l by auto
    qed
  qed
qed

lemma match_distinct:
  "keyOrdered t \<Longrightarrow> maxStored t \<Longrightarrow> distinct (match q t)"
proof (induction t)
  case Empty
  show ?case by simp
next
  case (RangeNode c l k m r)
  have sl: "set (match q l) \<subseteq> ranges l" and sr: "set (match q r) \<subseteq> ranges r"
    using RangeNode.prems by (auto simp add: match_exact)
  have nl: "k \<notin> ranges l" and nr: "k \<notin> ranges r"
    using RangeNode.prems(1) by (auto simp add: compareRanges_less)
  have disj: "ranges l \<inter> ranges r = {}"
  proof -
    have False if "x \<in> ranges l" "x \<in> ranges r" for x
    proof -
      have "compareRanges x k < 0" "compareRanges k x < 0"
        using RangeNode.prems(1) that by auto
      then show False by (auto simp add: compareRanges_less)
    qed
    then show ?thesis by auto
  qed
  show ?case
    using RangeNode sl sr nl nr disj by auto
qed

text \<open>
  Claim C5. For every list of ranges put into an empty range tree and every query
  \<open>q\<close>, \<open>match q\<close> returns exactly the stored ranges \<open>i\<close> with \<open>i.start < q.end\<close> and
  \<open>q.start < i.end\<close>: none is missing, none is returned that does not overlap or was
  not stored, and none is returned twice.
\<close>

theorem match_returns_exactly_the_overlapping_ranges:
  "set (match q (rangeTreeOf rs)) = {i \<in> set rs. start i < end' q \<and> start q < end' i}
   \<and> distinct (match q (rangeTreeOf rs))"
  using rangeTreeOf_invariants [of rs]
  by (simp add: match_exact match_distinct rangeOverlaps_def)

lemma match_docRanges_first:
  "match \<lparr>start = 9, end' = 20\<rparr> (rangeTreeOf docRanges) =
     [\<lparr>start = 0, end' = 20\<rparr>, \<lparr>start = 8, end' = 12\<rparr>, \<lparr>start = 8, end' = 14\<rparr>,
      \<lparr>start = 9, end' = 34\<rparr>, \<lparr>start = 11, end' = 15\<rparr>, \<lparr>start = 16, end' = 33\<rparr>,
      \<lparr>start = 19, end' = 24\<rparr>]"
  by code_simp

lemma match_docRanges_empty_query:
  "match \<lparr>start = 58, end' = 58\<rparr> (rangeTreeOf docRanges) =
     [\<lparr>start = 22, end' = 80\<rparr>, \<lparr>start = 51, end' = 69\<rparr>]"
  by code_simp

theorem match_docRanges_witness:
  "match \<lparr>start = 9, end' = 20\<rparr> (rangeTreeOf docRanges) =
     [\<lparr>start = 0, end' = 20\<rparr>, \<lparr>start = 8, end' = 12\<rparr>, \<lparr>start = 8, end' = 14\<rparr>,
      \<lparr>start = 9, end' = 34\<rparr>, \<lparr>start = 11, end' = 15\<rparr>, \<lparr>start = 16, end' = 33\<rparr>,
      \<lparr>start = 19, end' = 24\<rparr>]
   \<and> {i \<in> set docRanges. start i < 20 \<and> 9 < end' i} =
     {\<lparr>start = 0, end' = 20\<rparr>, \<lparr>start = 8, end' = 12\<rparr>, \<lparr>start = 8, end' = 14\<rparr>,
      \<lparr>start = 9, end' = 34\<rparr>, \<lparr>start = 11, end' = 15\<rparr>, \<lparr>start = 16, end' = 33\<rparr>,
      \<lparr>start = 19, end' = 24\<rparr>}
   \<and> match \<lparr>start = 58, end' = 58\<rparr> (rangeTreeOf docRanges) =
     [\<lparr>start = 22, end' = 80\<rparr>, \<lparr>start = 51, end' = 69\<rparr>]"
  using match_returns_exactly_the_overlapping_ranges [of "\<lparr>start = 9, end' = 20\<rparr>" docRanges]
    match_docRanges_first match_docRanges_empty_query
  by simp

section \<open>Properties: merge tree: segments seen from a view (spec-modelled)\<close>

subsection \<open>Flat-edit correctness\<close>









lemma getText_Nil [simp]: "getText r c [] = ''''"
  by (simp add: getText_def)

lemma getLength_Nil [simp]: "getLength r c [] = 0"
  by (simp add: getLength_def)


lemma getLength_Cons: "getLength r c (s # ss) = viewLength r c s + getLength r c ss"
  by (simp add: getLength_def)














section \<open>Properties: range context: the document-tree test and \<open>getStackContext\<close>\<close>

subsection \<open>Segments of the client's own\<close>

lemma own_ownSegment [simp]: "own c (ownSegment c x)"
  by (simp add: own_def ownSegment_def)

lemma content_ownSegment [simp]: "content (ownSegment c x) = x"
  by (simp add: ownSegment_def)

lemma viewLength_own: "own c s \<Longrightarrow> viewLength r c s = contentLength (content s)"
  by (simp add: own_def viewLength_def visible_def insertVisible_def removeVisible_def)

lemma ownLength_Nil [simp]: "ownLength [] = 0"
  by (simp add: ownLength_def)

lemma ownLength_Cons [simp]: "ownLength (s # ss) = contentLength (content s) + ownLength ss"
  by (simp add: ownLength_def)

lemma ownLength_append [simp]: "ownLength (xs @ ys) = ownLength xs + ownLength ys"
  by (simp add: ownLength_def)

lemma getLength_own: "\<forall>s \<in> set segs. own c s \<Longrightarrow> getLength r c segs = ownLength segs"
  by (induction segs) (simp_all add: getLength_Cons viewLength_own)

lemma insertSegment_at_end:
  "insertSegment r c (getLength r c segs) new segs = Inr (segs @ [new])"
  by (induction segs) (simp_all add: getLength_Cons Let_def)

lemma insertTextLocal_at_end:
  assumes "\<forall>s \<in> set (mergeTree cl). own (Client.clientId cl) s"
  shows "insertTextLocal t (ownLength (mergeTree cl)) cl =
    Inr (cl\<lparr>mergeTree := mergeTree cl @ [ownSegment (Client.clientId cl) (TextSegment t)]\<rparr>)"
  using insertSegment_at_end [of "currentSeq cl" "Client.clientId cl" "mergeTree cl"]
    getLength_own [OF assms, of "currentSeq cl"]
  by (simp add: insertTextLocal_def insertText_def ownSegment_def)

lemma insertMarkerLocal_at_end:
  assumes "\<forall>s \<in> set (mergeTree cl). own (Client.clientId cl) s"
  shows "insertMarkerLocal (ownLength (mergeTree cl)) rt props cl =
    Inr (cl\<lparr>mergeTree := mergeTree cl @ [ownSegment (Client.clientId cl) (Marker rt props)]\<rparr>)"
  using insertSegment_at_end [of "currentSeq cl" "Client.clientId cl" "mergeTree cl"]
    getLength_own [OF assms, of "currentSeq cl"]
  by (simp add: insertMarkerLocal_def insertMarker_def ownSegment_def)

subsection \<open>The scan, on segments of the client's own\<close>

lemma applyRangeMarker_text:
  "content s = TextSegment t \<Longrightarrow> applyRangeMarker labels s st = st"
  by (simp add: applyRangeMarker_def)

lemma scanStacks_past_prefix:
  "\<forall>s \<in> set pre. own c s \<Longrightarrow> ownLength pre \<le> pos \<Longrightarrow>
   scanStacks r c labels pos (pre @ rest) st =
     scanStacks r c labels (pos - ownLength pre) rest (fold (applyRangeMarker labels) pre st)"
proof (induction pre arbitrary: pos st)
  case Nil
  then show ?case by simp
next
  case (Cons s pre)
  have len: "viewLength r c s = contentLength (content s)"
    using Cons.prems(1) by (simp add: viewLength_own)
  have rest: "\<forall>s \<in> set pre. own c s" using Cons.prems(1) by simp
  show ?case
  proof (cases "contentLength (content s) = 0")
    case True
    then obtain t where "content s = TextSegment t"
      by (cases "content s") simp_all
    then have "applyRangeMarker labels s st = st" by (rule applyRangeMarker_text)
    then show ?thesis
      using True len Cons.IH [OF rest, of pos st] Cons.prems(2) by simp
  next
    case False
    have "ownLength pre \<le> pos - contentLength (content s)"
      using Cons.prems(2) by simp
    from Cons.IH [OF rest this, of "applyRangeMarker labels s st"]
    show ?thesis
      using False len Cons.prems(2) by (simp add: Let_def)
  qed
qed

lemma scanStacks_inside_text:
  assumes "\<forall>s \<in> set pre. own c s"
    and "ownLength pre \<le> q" and "q < ownLength pre + length t"
  shows "scanStacks r c labels q (pre @ ownSegment c (TextSegment t) # suf) st =
    fold (applyRangeMarker labels) pre st"
proof -
  have "viewLength r c (ownSegment c (TextSegment t)) = length t"
    by (simp add: viewLength_own)
  moreover have "q - ownLength pre < length t" using assms(2,3) by arith
  moreover have "t \<noteq> []" using assms(2,3) by auto
  ultimately show ?thesis
    using scanStacks_past_prefix [OF assms(1,2), of r labels
        "ownSegment c (TextSegment t) # suf" st]
    by (simp add: Let_def applyRangeMarker_text)
qed

subsection \<open>What \<open>addToMergeTree\<close> inserts\<close>

lemma own_emit: "\<forall>s \<in> set (emit c n). own c s" and own_emitAll: "\<forall>s \<in> set (emitAll c ns). own c s"
  by (induction c n and c ns rule: emit_emitAll.induct) auto

lemma add_text:
  assumes "docInv c st"
  shows "\<exists>st'. addToMergeTree st (StringNode s) = Inr (st', StringNode s)
    \<and> docInv c st' \<and> mergeTree (fst st') = mergeTree (fst st) @ emit c (StringNode s)"
proof -
  obtain cl pos ids where st: "st = (cl, pos, ids)" by (cases st)
  have inv: "Client.clientId cl = c" "\<forall>s \<in> set (mergeTree cl). own (Client.clientId cl) s"
    "pos = ownLength (mergeTree cl)" "ids ''box'' \<noteq> None" "ids ''row'' \<noteq> None"
    using assms st by (simp_all add: docInv_def)
  from insertTextLocal_at_end [OF inv(2), of s] show ?thesis
    using st inv by (simp add: docInv_def)
qed

lemma open_pg:
  assumes "docInv c st"
  shows "\<exists>st'. insertOpening st ''pg'' = Inr (st', None) \<and> docInv c st'
    \<and> mergeTree (fst st') = mergeTree (fst st)
        @ [ownSegment c (Marker {Tile}
             \<lparr>markerId = None, rangeLabels = [], tileLabels = [''pg'']\<rparr>)]"
proof -
  obtain cl pos ids where st: "st = (cl, pos, ids)" by (cases st)
  have inv: "Client.clientId cl = c" "\<forall>s \<in> set (mergeTree cl). own (Client.clientId cl) s"
    "pos = ownLength (mergeTree cl)" "ids ''box'' \<noteq> None" "ids ''row'' \<noteq> None"
    using assms st by (simp_all add: docInv_def)
  from insertMarkerLocal_at_end [OF inv(2), of "{Tile}"
      "\<lparr>markerId = None, rangeLabels = [], tileLabels = [''pg'']\<rparr>"]
  show ?thesis
    using st inv by (simp add: docInv_def insertOpening_def)
qed

lemma open_range:
  assumes "docInv c st" and "nm = ''row'' \<or> nm = ''box''"
  shows "\<exists>st' n. insertOpening st nm = Inr (st', Some n) \<and> docInv c st'
    \<and> mergeTree (fst st') = mergeTree (fst st)
        @ [ownSegment c
             (Marker (if nm = ''row'' then {NestBegin, Tile} else {NestBegin})
                \<lparr>markerId = Some (nm @ numberToString n), rangeLabels = [nm],
                 tileLabels = (if nm = ''row'' then [''pg''] else [])\<rparr>)]"
proof -
  obtain cl pos ids where st: "st = (cl, pos, ids)" by (cases st)
  have inv: "Client.clientId cl = c" "\<forall>s \<in> set (mergeTree cl). own (Client.clientId cl) s"
    "pos = ownLength (mergeTree cl)" "ids ''box'' \<noteq> None" "ids ''row'' \<noteq> None"
    using assms st by (simp_all add: docInv_def)
  from assms(2) inv(4,5) obtain n where n: "ids nm = Some n" by auto
  have notpg: "nm \<noteq> ''pg''" using assms(2) by auto
  from insertMarkerLocal_at_end [OF inv(2),
      of "if nm = ''row'' then {NestBegin, Tile} else {NestBegin}"
      "\<lparr>markerId = Some (nm @ numberToString n), rangeLabels = [nm],
        tileLabels = (if nm = ''row'' then [''pg''] else [])\<rparr>"]
  have "insertOpening st nm =
      Inr ((cl\<lparr>mergeTree := mergeTree cl @ [ownSegment c
             (Marker (if nm = ''row'' then {NestBegin, Tile} else {NestBegin})
                \<lparr>markerId = Some (nm @ numberToString n), rangeLabels = [nm],
                 tileLabels = (if nm = ''row'' then [''pg''] else [])\<rparr>)]\<rparr>,
            pos + 1, ids(nm \<mapsto> n + 1)), Some n)"
    using st inv n notpg by (simp add: insertOpening_def)
  then show ?thesis
    using st inv by (auto simp add: docInv_def)
qed

lemma close_range:
  assumes "docInv c st"
  shows "\<exists>st'. insertClosing st nm (Some n) = Inr st' \<and> docInv c st'
    \<and> mergeTree (fst st') = mergeTree (fst st)
        @ [ownSegment c
             (Marker {NestEnd}
                \<lparr>markerId = Some (''end-'' @ nm @ numberToString n), rangeLabels = [nm],
                 tileLabels = []\<rparr>)]"
proof -
  obtain cl pos ids where st: "st = (cl, pos, ids)" by (cases st)
  have inv: "Client.clientId cl = c" "\<forall>s \<in> set (mergeTree cl). own (Client.clientId cl) s"
    "pos = ownLength (mergeTree cl)" "ids ''box'' \<noteq> None" "ids ''row'' \<noteq> None"
    using assms st by (simp_all add: docInv_def)
  from insertMarkerLocal_at_end [OF inv(2), of "{NestEnd}"
      "\<lparr>markerId = Some (''end-'' @ nm @ numberToString n), rangeLabels = [nm],
        tileLabels = []\<rparr>"]
  show ?thesis
    using st inv by (simp add: docInv_def insertClosing_def)
qed

lemma add_emits:
  "nested n \<longrightarrow> docInv c st \<longrightarrow>
     (\<exists>st' n'. addToMergeTree st n = Inr (st', n') \<and> docInv c st'
        \<and> mergeTree (fst st') = mergeTree (fst st) @ emit c n' \<and> nested n')"
  and add_emits_children: "nestedAll cs \<longrightarrow> docInv c st \<longrightarrow>
     (\<exists>st' cs'. addChildren st cs = Inr (st', cs') \<and> docInv c st'
        \<and> mergeTree (fst st') = mergeTree (fst st) @ emitAll c cs' \<and> nestedAll cs')"
proof (induction st n and st cs rule: addToMergeTree_addChildren.induct)
  case (1 st s)
  show ?case
  proof (intro impI)
    assume "docInv c st"
    from add_text [OF this, of s] show "\<exists>st' n'. addToMergeTree st (StringNode s) = Inr (st', n')
        \<and> docInv c st' \<and> mergeTree (fst st') = mergeTree (fst st) @ emit c n' \<and> nested n'"
      by auto
  qed
next
  case (2 st nm i cs)
  show ?case
  proof (intro impI)
    assume nest: "nested (DocumentTree nm i cs)" and inv: "docInv c st"
    show "\<exists>st' n'. addToMergeTree st (DocumentTree nm i cs) = Inr (st', n')
        \<and> docInv c st' \<and> mergeTree (fst st') = mergeTree (fst st) @ emit c n' \<and> nested n'"
    proof (cases "nm = ''pg''")
      case True
      from nest True obtain s where cs: "cs = [StringNode s]"
        by (auto split: list.splits DocumentNode.splits)
      from open_pg [OF inv] obtain st1 where
        o: "insertOpening st ''pg'' = Inr (st1, None)" and inv1: "docInv c st1"
        and mt1: "mergeTree (fst st1) = mergeTree (fst st)
          @ [ownSegment c (Marker {Tile}
               \<lparr>markerId = None, rangeLabels = [], tileLabels = [''pg'']\<rparr>)]" by blast
      from add_text [OF inv1, of s] obtain st2 where
        a: "addToMergeTree st1 (StringNode s) = Inr (st2, StringNode s)"
        and inv2: "docInv c st2"
        and mt2: "mergeTree (fst st2) = mergeTree (fst st1) @ emit c (StringNode s)" by blast
      have "addToMergeTree st (DocumentTree nm i cs) = Inr (st2, DocumentTree nm i cs)"
        using True cs o a by (simp add: insertClosing_def assignedId_def split: prod.splits)
      then show ?thesis
        using True cs inv2 mt1 mt2 by auto
    next
      case False
      then have range: "nm = ''row'' \<or> nm = ''box''" and kids: "nestedAll cs"
        using nest by simp_all
      from open_range [OF inv range] obtain st1 n where
        o: "insertOpening st nm = Inr (st1, Some n)" and inv1: "docInv c st1"
        and mt1: "mergeTree (fst st1) = mergeTree (fst st)
          @ [ownSegment c
               (Marker (if nm = ''row'' then {NestBegin, Tile} else {NestBegin})
                  \<lparr>markerId = Some (nm @ numberToString n), rangeLabels = [nm],
                   tileLabels = (if nm = ''row'' then [''pg''] else [])\<rparr>)]" by blast
      from "2.IH" [OF o] kids inv1 obtain st2 cs' where
        a: "addChildren st1 cs = Inr (st2, cs')" and inv2: "docInv c st2"
        and mt2: "mergeTree (fst st2) = mergeTree (fst st1) @ emitAll c cs'"
        and kids': "nestedAll cs'" by auto
      from close_range [OF inv2, of nm n] obtain st3 where
        cl: "insertClosing st2 nm (Some n) = Inr st3" and inv3: "docInv c st3"
        and mt3: "mergeTree (fst st3) = mergeTree (fst st2)
          @ [ownSegment c
               (Marker {NestEnd}
                  \<lparr>markerId = Some (''end-'' @ nm @ numberToString n), rangeLabels = [nm],
                   tileLabels = []\<rparr>)]" by blast
      have "addToMergeTree st (DocumentTree nm i cs) =
          Inr (st3, DocumentTree nm (Some (nm @ numberToString n)) cs')"
        using o a cl by (simp add: assignedId_def)
      then show ?thesis
        using False range inv3 mt1 mt2 mt3 kids' by (auto simp add: endId_def)
    qed
  qed
next
  case (3 st)
  show ?case by simp
next
  case (4 st c' cs)
  show ?case
  proof (intro impI)
    assume nest: "nestedAll (c' # cs)" and inv: "docInv c st"
    from "4.IH"(1) nest inv obtain st1 n' where
      a: "addToMergeTree st c' = Inr (st1, n')" and inv1: "docInv c st1"
      and mt1: "mergeTree (fst st1) = mergeTree (fst st) @ emit c n'"
      and n': "nested n'" by auto
    from "4.IH"(2) [OF a] nest inv1 obtain st2 cs' where
      b: "addChildren st1 cs = Inr (st2, cs')" and inv2: "docInv c st2"
      and mt2: "mergeTree (fst st2) = mergeTree (fst st1) @ emitAll c cs'"
      and cs': "nestedAll cs'" by auto
    show "\<exists>st' cs'. addChildren st (c' # cs) = Inr (st', cs') \<and> docInv c st'
        \<and> mergeTree (fst st') = mergeTree (fst st) @ emitAll c cs' \<and> nestedAll cs'"
      using a b inv2 mt1 mt2 n' cs' by auto
  qed
qed

subsection \<open>The scan against the recursive walk\<close>

lemma getId_marker [simp]: "getId (ownSegment c (Marker rt props)) = markerId props"
  by (simp add: getId_def)

lemma stackIds_pushMarker:
  "stackIds (pushMarker m l S) l' = (if l' = l then stackIds S l @ [getId m] else stackIds S l')"
  by (simp add: stackIds_def pushMarker_def split: option.splits)

lemma stackIds_popMarker:
  "stackIds (popMarker l S) l' = (if l' = l then butlast (stackIds S l) else stackIds S l')"
  by (simp add: stackIds_def popMarker_def map_butlast split: option.splits)

lemma apply_tile:
  "applyRangeMarker labels (ownSegment c (Marker {Tile} props)) S = S"
  by (simp add: applyRangeMarker_def)

lemma apply_text:
  "applyRangeMarker labels (ownSegment c (TextSegment t)) S = S"
  by (simp add: applyRangeMarker_def)

lemma apply_opening:
  assumes "nm = ''row'' \<or> nm = ''box''"
  shows "applyRangeMarker stackLabels
      (ownSegment c
         (Marker (if nm = ''row'' then {NestBegin, Tile} else {NestBegin})
            \<lparr>markerId = i, rangeLabels = [nm], tileLabels = tls\<rparr>)) S =
    pushMarker
      (ownSegment c
         (Marker (if nm = ''row'' then {NestBegin, Tile} else {NestBegin})
            \<lparr>markerId = i, rangeLabels = [nm], tileLabels = tls\<rparr>)) nm S"
  using assms by (auto simp add: applyRangeMarker_def stackLabels_def)

lemma apply_closing:
  assumes "nm = ''row'' \<or> nm = ''box''"
  shows "applyRangeMarker stackLabels
      (ownSegment c
         (Marker {NestEnd} \<lparr>markerId = j, rangeLabels = [nm], tileLabels = []\<rparr>)) S =
    popMarker nm S"
  using assms by (auto simp add: applyRangeMarker_def stackLabels_def)

lemma agrees_opening:
  assumes "agrees S stacks" and "nm = ''row'' \<or> nm = ''box''"
    and "stacks nm = Some items"
  shows "agrees
      (applyRangeMarker stackLabels
         (ownSegment c
            (Marker (if nm = ''row'' then {NestBegin, Tile} else {NestBegin})
               \<lparr>markerId = i, rangeLabels = [nm], tileLabels = tls\<rparr>)) S)
      (stacks(nm \<mapsto> items @ [i]))"
  using assms
  by (auto simp add: apply_opening agrees_def stackIds_pushMarker)

lemma agrees_closing:
  assumes "agrees S (stacks(nm \<mapsto> items @ [i]))" and "nm = ''row'' \<or> nm = ''box''"
    and "stacks nm = Some items"
  shows "agrees
      (applyRangeMarker stackLabels
         (ownSegment c
            (Marker {NestEnd} \<lparr>markerId = j, rangeLabels = [nm], tileLabels = []\<rparr>)) S)
      stacks"
proof -
  have "stackIds S nm = items @ [i]"
    using assms(1,2) by (auto simp add: agrees_def)
  then have "butlast (stackIds S nm) = items" by simp
  then show ?thesis
    using assms by (auto simp add: apply_closing agrees_def stackIds_popMarker)
qed

lemma walked_text:
  assumes "\<forall>s \<in> set pre. own c s"
    and "agrees (fold (applyRangeMarker stackLabels) pre Map.empty) stacks"
  shows "walked c pre stacks (checkNodeStacks (ownLength pre, stacks) (StringNode s))
    (emit c (StringNode s))"
proof -
  have scan: "scanStacks UniversalSequenceNumber c stackLabels q
      (pre @ ownSegment c (TextSegment s) # suf) Map.empty
      = fold (applyRangeMarker stackLabels) pre Map.empty"
    if "ownLength pre \<le> q \<and> q < ownLength pre + length s" for q suf
    using that scanStacks_inside_text [OF assms(1)] by simp
  show ?thesis
    using assms(2) scan by (simp add: walked_def apply_text)
qed

lemma walked_prepend:
  assumes "walked c (pre @ [m]) stacks res em"
  shows "walked c pre stacks res (m # em)"
  using assms by (simp add: walked_def)

lemma walk_agrees:
  "nested n \<longrightarrow> (\<forall>pre. (\<forall>s \<in> set pre. own c s) \<longrightarrow> fst st = ownLength pre \<longrightarrow>
       agrees (fold (applyRangeMarker stackLabels) pre Map.empty) (snd st) \<longrightarrow>
       walked c pre (snd st) (checkNodeStacks st n) (emit c n))"
  and walk_agrees_children: "nestedAll cs \<longrightarrow> (\<forall>pre. (\<forall>s \<in> set pre. own c s) \<longrightarrow> fst st = ownLength pre \<longrightarrow>
       agrees (fold (applyRangeMarker stackLabels) pre Map.empty) (snd st) \<longrightarrow>
       walked c pre (snd st) (checkChildrenStacks st cs) (emitAll c cs))"
proof (induction st n and st cs rule: checkNodeStacks_checkChildrenStacks.induct)
  case (1 st s)
  show ?case
  proof (intro impI allI)
    fix pre
    assume "\<forall>s \<in> set pre. own c s" and "fst st = ownLength pre"
      and "agrees (fold (applyRangeMarker stackLabels) pre Map.empty) (snd st)"
    then show "walked c pre (snd st) (checkNodeStacks st (StringNode s)) (emit c (StringNode s))"
      using walked_text [of pre c "snd st" s] by (cases st) simp
  qed
next
  case (2 st nm i cs)
  show ?case
  proof (intro impI allI)
    fix pre
    assume nest: "nested (DocumentTree nm i cs)"
      and ownpre: "\<forall>s \<in> set pre. own c s" and pos: "fst st = ownLength pre"
      and agr: "agrees (fold (applyRangeMarker stackLabels) pre Map.empty) (snd st)"
    show "walked c pre (snd st) (checkNodeStacks st (DocumentTree nm i cs))
        (emit c (DocumentTree nm i cs))"
    proof (cases "nm = ''pg''")
      case True
      from nest True obtain s where cs: "cs = [StringNode s]"
        by (auto split: list.splits DocumentNode.splits)
      let ?tile = "ownSegment c (Marker {Tile}
          \<lparr>markerId = None, rangeLabels = [], tileLabels = [nm]\<rparr>)"
      have "walked c (pre @ [?tile]) (snd st)
          (checkNodeStacks (ownLength (pre @ [?tile]), snd st) (StringNode s))
          (emit c (StringNode s))"
        using ownpre agr by (intro walked_text) (simp_all add: apply_tile)
      then have "walked c pre (snd st)
          (checkNodeStacks (ownLength (pre @ [?tile]), snd st) (StringNode s))
          (?tile # emit c (StringNode s))"
        by (rule walked_prepend)
      then show ?thesis
        using True cs pos by simp
    next
      case False
      then have range: "nm = ''row'' \<or> nm = ''box''" and kids: "nestedAll cs"
        using nest by simp_all
      from agr range obtain items where items: "snd st nm = Some items"
        by (auto simp add: agrees_def)
      define openMarker where "openMarker = ownSegment c
          (Marker (if nm = ''row'' then {NestBegin, Tile} else {NestBegin})
             \<lparr>markerId = i, rangeLabels = [nm],
              tileLabels = (if nm = ''row'' then [''pg''] else [])\<rparr>)"
      define closeMarker where "closeMarker = ownSegment c
          (Marker {NestEnd}
             \<lparr>markerId = map_option endId i, rangeLabels = [nm],
              tileLabels = []\<rparr>)"
      define inner where "inner = (snd st)(nm \<mapsto> items @ [i])"
      have em: "emit c (DocumentTree nm i cs) = openMarker # emitAll c cs @ [closeMarker]"
        using False by (simp add: openMarker_def closeMarker_def)
      have ownpre': "\<forall>s \<in> set (pre @ [openMarker]). own c s"
        using ownpre by (simp add: openMarker_def)
      have pos': "fst (fst st + 1, inner) = ownLength (pre @ [openMarker])"
        using pos by (simp add: openMarker_def)
      have agr': "agrees (fold (applyRangeMarker stackLabels) (pre @ [openMarker]) Map.empty)
          (snd (fst st + 1, inner))"
        using agrees_opening [OF agr range items, of c i] by (simp add: openMarker_def inner_def)
      have ih: "\<forall>pre. (\<forall>s \<in> set pre. own c s) \<longrightarrow>
          fst (fst st + 1, inner) = ownLength pre \<longrightarrow>
          agrees (fold (applyRangeMarker stackLabels) pre Map.empty) (snd (fst st + 1, inner)) \<longrightarrow>
          walked c pre (snd (fst st + 1, inner)) (checkChildrenStacks (fst st + 1, inner) cs)
            (emitAll c cs)"
        using "2.IH"(2) [OF False items] kids unfolding inner_def by blast
      from ih [THEN spec, of "pre @ [openMarker]"] ownpre' pos' agr'
      have "walked c (pre @ [openMarker]) inner
          (checkChildrenStacks (fst st + 1, inner) cs) (emitAll c cs)"
        by simp
      then obtain obs where
        res: "checkChildrenStacks (fst st + 1, inner) cs =
          Inr ((ownLength ((pre @ [openMarker]) @ emitAll c cs), inner), obs)"
        and after: "agrees (fold (applyRangeMarker stackLabels)
            ((pre @ [openMarker]) @ emitAll c cs) Map.empty) inner"
        and seen: "\<forall>ob \<in> set obs. \<forall>suf q.
            fst ob \<le> q \<and> q < fst (snd ob) \<longrightarrow>
            agrees (scanStacks UniversalSequenceNumber c stackLabels q
                      ((pre @ [openMarker]) @ emitAll c cs @ suf) Map.empty) (snd (snd ob))"
        unfolding walked_def by blast
      have restored: "inner(nm \<mapsto> butlast (items @ [i])) = snd st"
        using items by (simp add: inner_def map_upd_triv)
      have innernm: "inner nm = Some (items @ [i])"
        by (simp add: inner_def)
      have len: "ownLength (pre @ emit c (DocumentTree nm i cs))
          = ownLength ((pre @ [openMarker]) @ emitAll c cs) + 1"
        unfolding em by (simp add: openMarker_def closeMarker_def)
      have "checkNodeStacks st (DocumentTree nm i cs) =
          (case checkChildrenStacks (fst st + 1, inner) cs of
             Inl e \<Rightarrow> Inl e
           | Inr w \<Rightarrow>
               (case snd (fst w) nm of
                  None \<Rightarrow> Inl TypeError
                | Some items' \<Rightarrow>
                    Inr ((fst (fst w) + 1, (snd (fst w))(nm \<mapsto> butlast items')),
                         snd w)))"
        using False items by (simp add: inner_def)
      also have "\<dots> = Inr ((ownLength ((pre @ [openMarker]) @ emitAll c cs) + 1, snd st), obs)"
        unfolding res using innernm restored by simp
      finally have result: "checkNodeStacks st (DocumentTree nm i cs) =
          Inr ((ownLength (pre @ emit c (DocumentTree nm i cs)), snd st), obs)"
        unfolding len .
      have "agrees (applyRangeMarker stackLabels closeMarker
          (fold (applyRangeMarker stackLabels) ((pre @ [openMarker]) @ emitAll c cs) Map.empty))
          (snd st)"
        using agrees_closing [of
            "fold (applyRangeMarker stackLabels) ((pre @ [openMarker]) @ emitAll c cs) Map.empty"
            "snd st" nm items i c "map_option endId i"]
          after range items by (simp add: inner_def closeMarker_def)
      then have closed: "agrees (fold (applyRangeMarker stackLabels)
          (pre @ emit c (DocumentTree nm i cs)) Map.empty) (snd st)"
        unfolding em by simp
      have "\<forall>ob \<in> set obs. \<forall>suf q.
          fst ob \<le> q \<and> q < fst (snd ob) \<longrightarrow>
          agrees (scanStacks UniversalSequenceNumber c stackLabels q
                    (pre @ emit c (DocumentTree nm i cs) @ suf) Map.empty) (snd (snd ob))"
      proof (intro ballI allI impI)
        fix ob suf q
        assume "ob \<in> set obs" and "fst ob \<le> q \<and> q < fst (snd ob)"
        with seen have "agrees (scanStacks UniversalSequenceNumber c stackLabels q
            ((pre @ [openMarker]) @ emitAll c cs @ (closeMarker # suf)) Map.empty) (snd (snd ob))"
          by blast
        then show "agrees (scanStacks UniversalSequenceNumber c stackLabels q
            (pre @ emit c (DocumentTree nm i cs) @ suf) Map.empty) (snd (snd ob))"
          unfolding em by simp
      qed
      with result closed show ?thesis
        unfolding walked_def by blast
    qed
  qed
next
  case (3 st)
  show ?case
    by (cases st) (simp add: walked_def)
next
  case (4 st n cs)
  show ?case
  proof (intro impI allI)
    fix pre
    assume nest: "nestedAll (n # cs)"
      and ownpre: "\<forall>s \<in> set pre. own c s" and pos: "fst st = ownLength pre"
      and agr: "agrees (fold (applyRangeMarker stackLabels) pre Map.empty) (snd st)"
    from "4.IH"(1) nest ownpre pos agr
    have "walked c pre (snd st) (checkNodeStacks st n) (emit c n)" by simp
    then obtain obs where
      res: "checkNodeStacks st n = Inr ((ownLength (pre @ emit c n), snd st), obs)"
      and after: "agrees (fold (applyRangeMarker stackLabels) (pre @ emit c n) Map.empty)
          (snd st)"
      and seen: "\<forall>ob \<in> set obs. \<forall>suf q.
          fst ob \<le> q \<and> q < fst (snd ob) \<longrightarrow>
          agrees (scanStacks UniversalSequenceNumber c stackLabels q
                    (pre @ emit c n @ suf) Map.empty) (snd (snd ob))"
      unfolding walked_def by blast
    have ownpre': "\<forall>s \<in> set (pre @ emit c n). own c s"
      using ownpre own_emit [of c n] by auto
    have ih: "\<forall>pre'. (\<forall>s \<in> set pre'. own c s) \<longrightarrow>
        fst (fst ((ownLength (pre @ emit c n), snd st), obs)) = ownLength pre' \<longrightarrow>
        agrees (fold (applyRangeMarker stackLabels) pre' Map.empty)
          (snd (fst ((ownLength (pre @ emit c n), snd st), obs))) \<longrightarrow>
        walked c pre' (snd (fst ((ownLength (pre @ emit c n), snd st), obs)))
          (checkChildrenStacks (fst ((ownLength (pre @ emit c n), snd st), obs)) cs)
          (emitAll c cs)"
      using "4.IH"(2) [OF res] nest by simp
    have "walked c (pre @ emit c n) (snd st)
        (checkChildrenStacks (ownLength (pre @ emit c n), snd st) cs) (emitAll c cs)"
      using ih [THEN spec, of "pre @ emit c n"] ownpre' after by simp
    then obtain obs' where
      res': "checkChildrenStacks (ownLength (pre @ emit c n), snd st) cs =
        Inr ((ownLength ((pre @ emit c n) @ emitAll c cs), snd st), obs')"
      and after': "agrees (fold (applyRangeMarker stackLabels)
          ((pre @ emit c n) @ emitAll c cs) Map.empty) (snd st)"
      and seen': "\<forall>ob \<in> set obs'. \<forall>suf q.
          fst ob \<le> q \<and> q < fst (snd ob) \<longrightarrow>
          agrees (scanStacks UniversalSequenceNumber c stackLabels q
                    ((pre @ emit c n) @ emitAll c cs @ suf) Map.empty) (snd (snd ob))"
      unfolding walked_def by blast
    have result: "checkChildrenStacks st (n # cs) =
        Inr ((ownLength (pre @ emitAll c (n # cs)), snd st), obs @ obs')"
      using res res' by simp
    have "\<forall>ob \<in> set (obs @ obs'). \<forall>suf q.
        fst ob \<le> q \<and> q < fst (snd ob) \<longrightarrow>
        agrees (scanStacks UniversalSequenceNumber c stackLabels q
                  (pre @ emitAll c (n # cs) @ suf) Map.empty) (snd (snd ob))"
    proof (intro ballI allI impI)
      fix ob suf q
      assume ob: "ob \<in> set (obs @ obs')"
        and q: "fst ob \<le> q \<and> q < fst (snd ob)"
      show "agrees (scanStacks UniversalSequenceNumber c stackLabels q
          (pre @ emitAll c (n # cs) @ suf) Map.empty) (snd (snd ob))"
      proof (cases "ob \<in> set obs")
        case True
        with seen q have "agrees (scanStacks UniversalSequenceNumber c stackLabels q
            (pre @ emit c n @ (emitAll c cs @ suf)) Map.empty) (snd (snd ob))"
          by blast
        then show ?thesis by simp
      next
        case False
        with ob have "ob \<in> set obs'" by simp
        with seen' q have "agrees (scanStacks UniversalSequenceNumber c stackLabels q
            ((pre @ emit c n) @ emitAll c cs @ suf) Map.empty) (snd (snd ob))"
          by blast
        then show ?thesis by simp
      qed
    qed
    with result after' show "walked c pre (snd st) (checkChildrenStacks st (n # cs))
        (emitAll c (n # cs))"
      by (simp add: walked_def)
  qed
qed

subsection \<open>The scan against the enclosing ranges\<close>

lemma ownLength_emit: "ownLength (emit c n) = nodeLength n"
  and ownLength_emitAll: "ownLength (emitAll c ns) = nodesLength ns"
  by (induction c n and c ns rule: emit_emitAll.induct) simp_all

lemma scans_Nil: "scans c [] 0 (\<lambda>l q. [])"
  by (simp add: scans_def)

lemma scans_text: "scans c [ownSegment c (TextSegment s)] (length s) (\<lambda>l q. [])"
proof -
  have "scanStacks UniversalSequenceNumber c stackLabels q
      ([ownSegment c (TextSegment s)] @ suf) S = S" if "q < length s" for q suf S
    using that by (cases s) (simp_all add: viewLength_own apply_text Let_def)
  then show ?thesis
    by (simp add: scans_def apply_text)
qed

lemma scans_tile:
  "scans c [ownSegment c (Marker {Tile} props)] 1 (\<lambda>l q. [])"
  by (simp add: scans_def apply_tile viewLength_own Let_def)

lemma scans_append:
  assumes a: "scans c a la ea" and b: "scans c b lb eb" and owna: "\<forall>s \<in> set a. own c s"
  shows "scans c (a @ b) (la + lb) (\<lambda>l q. if q < la then ea l q else eb l (q - la))"
proof -
  have la: "ownLength a = la" and lb: "ownLength b = lb"
    using a b by (simp_all add: scans_def)
  have bala: "stackIds (fold (applyRangeMarker stackLabels) a S) l = stackIds S l" for S l
    using a by (simp add: scans_def)
  have balb: "stackIds (fold (applyRangeMarker stackLabels) b S) l = stackIds S l" for S l
    using b by (simp add: scans_def)
  have ina: "stackIds (scanStacks UniversalSequenceNumber c stackLabels q (a @ suf) S) l
      = stackIds S l @ ea l q" if "q < la" for S q suf l
    using a that by (simp add: scans_def)
  have inb: "stackIds (scanStacks UniversalSequenceNumber c stackLabels q (b @ suf) S) l
      = stackIds S l @ eb l q" if "q < lb" for S q suf l
    using b that by (simp add: scans_def)
  have "stackIds (scanStacks UniversalSequenceNumber c stackLabels q ((a @ b) @ suf) S) l
      = stackIds S l @ (if q < la then ea l q else eb l (q - la))"
    if q: "q < la + lb" for S q suf l
  proof (cases "q < la")
    case True
    from ina [OF True, where suf = "b @ suf" and S = S and l = l] True
    show ?thesis by simp
  next
    case False
    then have past: "ownLength a \<le> q" using la by simp
    have "scanStacks UniversalSequenceNumber c stackLabels q (a @ (b @ suf)) S
        = scanStacks UniversalSequenceNumber c stackLabels (q - la) (b @ suf)
            (fold (applyRangeMarker stackLabels) a S)"
      using scanStacks_past_prefix [OF owna past] la by simp
    moreover have "q - la < lb" using q False by simp
    ultimately show ?thesis
      using inb [where q = "q - la" and l = l and suf = suf
          and S = "fold (applyRangeMarker stackLabels) a S"] bala False
      by simp
  qed
  then show ?thesis
    using la lb bala balb by (simp add: scans_def)
qed

lemma scans_range:
  assumes inner: "scans c em len enc" and ownem: "\<forall>s \<in> set em. own c s"
    and range: "nm = ''row'' \<or> nm = ''box''"
  shows "scans c
      (ownSegment c
         (Marker (if nm = ''row'' then {NestBegin, Tile} else {NestBegin})
            \<lparr>markerId = i, rangeLabels = [nm], tileLabels = tls\<rparr>)
       # em
       @ [ownSegment c
            (Marker {NestEnd} \<lparr>markerId = j, rangeLabels = [nm], tileLabels = []\<rparr>)])
      (len + 2)
      (\<lambda>l q. if q < len + 1
              then (if nm = l then [i] else []) @ (if q = 0 then [] else enc l (q - 1))
              else [])"
proof -
  define openMarker where "openMarker = ownSegment c
      (Marker (if nm = ''row'' then {NestBegin, Tile} else {NestBegin})
         \<lparr>markerId = i, rangeLabels = [nm], tileLabels = tls\<rparr>)"
  define closeMarker where "closeMarker = ownSegment c
      (Marker {NestEnd} \<lparr>markerId = j, rangeLabels = [nm], tileLabels = []\<rparr>)"
  have len: "ownLength em = len"
    using inner by (simp add: scans_def)
  have bal: "stackIds (fold (applyRangeMarker stackLabels) em S) l = stackIds S l" for S l
    using inner by (simp add: scans_def)
  have inside: "stackIds (scanStacks UniversalSequenceNumber c stackLabels q (em @ suf) S) l
      = stackIds S l @ enc l q" if "q < len" for S q suf l
    using inner that by (simp add: scans_def)
  have opened: "stackIds (applyRangeMarker stackLabels openMarker S) l
      = stackIds S l @ (if nm = l then [i] else [])" for S l
    unfolding openMarker_def using range
    by (simp add: apply_opening stackIds_pushMarker)
  have closed: "stackIds (applyRangeMarker stackLabels closeMarker S) l
      = (if l = nm then butlast (stackIds S nm) else stackIds S l)" for S l
    unfolding closeMarker_def using range
    by (simp add: apply_closing stackIds_popMarker)
  have lenOpen: "viewLength UniversalSequenceNumber c openMarker = 1"
    by (simp add: openMarker_def viewLength_own)
  have lenClose: "viewLength UniversalSequenceNumber c closeMarker = 1"
    by (simp add: closeMarker_def viewLength_own)
  have whole: "stackIds (fold (applyRangeMarker stackLabels)
      (openMarker # em @ [closeMarker]) S) l = stackIds S l" for S l
    by (simp add: closed bal opened)
  have total: "ownLength (openMarker # em @ [closeMarker]) = len + 2"
    using len by (simp add: openMarker_def closeMarker_def)
  have at: "stackIds (scanStacks UniversalSequenceNumber c stackLabels q
        ((openMarker # em @ [closeMarker]) @ suf) S) l
      = stackIds S l @ (if q < len + 1
          then (if nm = l then [i] else []) @ (if q = 0 then [] else enc l (q - 1))
          else [])"
    if q: "q < len + 2" for S q suf l
  proof (cases "q = 0")
    case True
    then show ?thesis by (simp add: lenOpen opened Let_def)
  next
    case positive: False
    have step: "scanStacks UniversalSequenceNumber c stackLabels q
        ((openMarker # em @ [closeMarker]) @ suf) S
        = scanStacks UniversalSequenceNumber c stackLabels (q - 1)
            (em @ (closeMarker # suf)) (applyRangeMarker stackLabels openMarker S)"
      using positive by (simp add: lenOpen Let_def)
    show ?thesis
    proof (cases "q - 1 < len")
      case True
      have lt: "q < len + 1" using True positive by arith
      have "stackIds (scanStacks UniversalSequenceNumber c stackLabels q
            ((openMarker # em @ [closeMarker]) @ suf) S) l
          = stackIds (applyRangeMarker stackLabels openMarker S) l @ enc l (q - 1)"
        unfolding step
        by (rule inside [OF True, where l = l and suf = "closeMarker # suf"
              and S = "applyRangeMarker stackLabels openMarker S"])
      then show ?thesis
        using lt positive by (simp add: opened)
    next
      case False
      then have q1: "q - 1 = len" using q positive by simp
      have "scanStacks UniversalSequenceNumber c stackLabels (q - 1)
          (em @ (closeMarker # suf)) (applyRangeMarker stackLabels openMarker S)
          = scanStacks UniversalSequenceNumber c stackLabels 0 (closeMarker # suf)
              (fold (applyRangeMarker stackLabels) em
                 (applyRangeMarker stackLabels openMarker S))"
        using scanStacks_past_prefix [OF ownem, of "q - 1" UniversalSequenceNumber stackLabels
            "closeMarker # suf" "applyRangeMarker stackLabels openMarker S"] q1 len
        by simp
      also have "\<dots> = applyRangeMarker stackLabels closeMarker
          (fold (applyRangeMarker stackLabels) em (applyRangeMarker stackLabels openMarker S))"
        by (simp add: lenClose Let_def)
      finally have last: "scanStacks UniversalSequenceNumber c stackLabels (q - 1)
          (em @ (closeMarker # suf)) (applyRangeMarker stackLabels openMarker S)
          = applyRangeMarker stackLabels closeMarker
              (fold (applyRangeMarker stackLabels) em
                 (applyRangeMarker stackLabels openMarker S))" .
      have ge: "\<not> q < len + 1" using q1 positive by arith
      have "stackIds (scanStacks UniversalSequenceNumber c stackLabels q
            ((openMarker # em @ [closeMarker]) @ suf) S) l = stackIds S l"
        unfolding step last by (simp add: closed bal opened)
      then show ?thesis
        using ge by simp
    qed
  qed
  show ?thesis
    unfolding scans_def openMarker_def [symmetric] closeMarker_def [symmetric]
    using total whole at by (intro conjI allI impI)
qed

lemma scan_encloses:
  "nested n \<longrightarrow> scans c (emit c n) (nodeLength n) (\<lambda>l q. enclosing l q n)"
  and scan_encloses_children:
  "nestedAll ns \<longrightarrow> scans c (emitAll c ns) (nodesLength ns) (\<lambda>l q. enclosingAll l q ns)"
proof (induction c n and c ns rule: emit_emitAll.induct)
  case (1 c s)
  show ?case using scans_text [of c s] by simp
next
  case (2 c nm i cs)
  show ?case
  proof
    assume nest: "nested (DocumentTree nm i cs)"
    show "scans c (emit c (DocumentTree nm i cs)) (nodeLength (DocumentTree nm i cs))
        (\<lambda>l q. enclosing l q (DocumentTree nm i cs))"
    proof (cases "nm = ''pg''")
      case True
      from nest True obtain s where cs: "cs = [StringNode s]"
        by (auto split: list.splits DocumentNode.splits)
      have kids: "scans c (emitAll c cs) (nodesLength cs) (\<lambda>l q. enclosingAll l q cs)"
        using "2.IH"(1) [OF True] cs by simp
      have "scans c
          ([ownSegment c (Marker {Tile}
              \<lparr>markerId = None, rangeLabels = [], tileLabels = [nm]\<rparr>)] @ emitAll c cs)
          (1 + nodesLength cs)
          (\<lambda>l q. if q < 1 then [] else enclosingAll l (q - 1) cs)"
        by (rule scans_append [OF scans_tile kids]) simp
      moreover have "(\<lambda>l q. if q < 1 then [] else enclosingAll l (q - 1) cs)
          = (\<lambda>l q. enclosing l q (DocumentTree nm i cs))"
        using True by (intro ext) simp
      ultimately show ?thesis using True by simp
    next
      case False
      then have range: "nm = ''row'' \<or> nm = ''box''" and nestkids: "nestedAll cs"
        using nest by simp_all
      have kids: "scans c (emitAll c cs) (nodesLength cs) (\<lambda>l q. enclosingAll l q cs)"
        using "2.IH"(2) [OF False] nestkids by simp
      from scans_range [OF kids own_emitAll range, of i
          "if nm = ''row'' then [''pg''] else []" "map_option endId i"]
      show ?thesis using False by simp
    qed
  qed
next
  case (3 c)
  show ?case using scans_Nil [of c] by simp
next
  case (4 c n ns)
  show ?case
  proof
    assume nest: "nestedAll (n # ns)"
    have hd: "scans c (emit c n) (nodeLength n) (\<lambda>l q. enclosing l q n)"
      using "4.IH"(1) nest by simp
    have tl: "scans c (emitAll c ns) (nodesLength ns) (\<lambda>l q. enclosingAll l q ns)"
      using "4.IH"(2) nest by simp
    from scans_append [OF hd tl own_emit]
    show "scans c (emitAll c (n # ns)) (nodesLength (n # ns))
        (\<lambda>l q. enclosingAll l q (n # ns))"
      by simp
  qed
qed



subsection \<open>Range-context equivalence\<close>





text \<open>
  The documents of the grammar (a row holds boxes, a box holds rows and paragraphs, a
  paragraph holds one text) are among the nested documents.
\<close>

lemma isParagraph_nested: "isParagraph n \<Longrightarrow> nested n"
  by (cases n rule: isParagraph.cases) simp_all

lemma grammar_nested:
  "isRow n \<longrightarrow> nested n" and grammar_nested_box: "isBox b \<longrightarrow> nested b"
  and grammar_nested_content: "isContent cs \<longrightarrow> nestedAll cs"
  and grammar_nested_boxes: "isBoxes bs \<longrightarrow> nestedAll bs"
  by (induction n and b and cs and bs rule: isRow_isBox_isContent_isBoxes.induct)
     (auto simp add: isParagraph_nested)






end
